theory Spec2Isabelle
  imports Main
begin

section \<open>JavaScript strings\<close>

text \<open>
  The codec of \<^verbatim>\<open>src/app/app.ts\<close> works on JavaScript strings. A string is modelled
  as a \<^typ>\<open>string\<close> whose characters are the code units below 256 (Latin-1); code units
  above 255 are not represented. The white space of \<^verbatim>\<open>String.prototype.trim\<close> and of the
  regular expression class \<^verbatim>\<open>\s\<close> is, in that range: TAB, LF, VT, FF, CR, SPACE and
  NBSP. The line terminators that the regular expression \<^verbatim>\<open>.\<close> refuses are LF and CR.
\<close>

definition is_space :: "char \<Rightarrow> bool" where
  "is_space c \<longleftrightarrow>
     c \<in> set [CHR 0x09, CHR 0x0A, CHR 0x0B, CHR 0x0C, CHR 0x0D, CHR 0x20, CHR 0xA0]"

definition is_line_terminator :: "char \<Rightarrow> bool" where
  "is_line_terminator c \<longleftrightarrow> c = CHR 0x0A \<or> c = CHR 0x0D"

definition is_digit :: "char \<Rightarrow> bool" where
  "is_digit c \<longleftrightarrow> c \<in> set ''0123456789''"

text \<open>\<^verbatim>\<open>s.trim()\<close>: white space removed at both ends.\<close>

definition trim :: "string \<Rightarrow> string" where
  "trim s = rev (dropWhile is_space (rev (dropWhile is_space s)))"

text \<open>
  \<^verbatim>\<open>s.split(c)\<close> for a one-character separator: never the empty list
  (\<^verbatim>\<open>''.split('\n')\<close> is \<^verbatim>\<open>['']\<close>).
\<close>

fun split :: "char \<Rightarrow> string \<Rightarrow> string list" where
  "split c [] = [[]]"
| "split c (x # xs) =
     (if x = c then [] # split c xs
      else (case split c xs of
              [] \<Rightarrow> [[x]]
            | y # ys \<Rightarrow> (x # y) # ys))"

text \<open>\<^verbatim>\<open>xs.join(sep)\<close>; the empty array joins to the empty string.\<close>

fun join :: "string \<Rightarrow> string list \<Rightarrow> string" where
  "join sep [] = []"
| "join sep [x] = x"
| "join sep (x # y # ys) = x @ sep @ join sep (y # ys)"

text \<open>\<^verbatim>\<open>s.endsWith(':')\<close>, \<^verbatim>\<open>s.startsWith(p)\<close>, \<^verbatim>\<open>s.includes(c)\<close>.\<close>

definition endsWith_colon :: "string \<Rightarrow> bool" where
  "endsWith_colon s \<longleftrightarrow> s \<noteq> [] \<and> last s = CHR '':''"

definition startsWith :: "string \<Rightarrow> string \<Rightarrow> bool" where
  "startsWith p s \<longleftrightarrow> take (length p) s = p"

definition includes_char :: "char \<Rightarrow> string \<Rightarrow> bool" where
  "includes_char c s \<longleftrightarrow> c \<in> set s"

text \<open>\<^verbatim>\<open>s.indexOf(c)\<close>: the position of the first occurrence, or \<open>-1\<close>.\<close>

fun indexOf :: "char \<Rightarrow> string \<Rightarrow> int" where
  "indexOf c [] = - 1"
| "indexOf c (x # xs) =
     (if x = c then 0
      else (let i = indexOf c xs in if i < 0 then - 1 else i + 1))"

subsection \<open>Decimal digits\<close>

definition digit_char :: "nat \<Rightarrow> char" where
  "digit_char d = ''0123456789'' ! d"

definition digit_val :: "char \<Rightarrow> nat" where
  "digit_val c = of_char c - 48"

text \<open>The decimal digits of a natural number, without leading zeros (\<open>0\<close> is \<^verbatim>\<open>"0"\<close>).\<close>

fun show_nat :: "nat \<Rightarrow> string" where
  "show_nat n = (if n < 10 then [digit_char n] else show_nat (n div 10) @ [digit_char (n mod 10)])"

declare show_nat.simps [simp del]

text \<open>The value of a string of digits in base \<open>b\<close>, most significant digit first.\<close>

definition digits_val :: "nat \<Rightarrow> (char \<Rightarrow> nat) \<Rightarrow> string \<Rightarrow> nat" where
  "digits_val b dv s = foldl (\<lambda>a c. b * a + dv c) 0 s"

text \<open>\<^verbatim>\<open>parseInt(s, 10)\<close> on a string of decimal digits.\<close>

definition parseInt10 :: "string \<Rightarrow> nat" where
  "parseInt10 s = digits_val 10 digit_val s"

section \<open>JavaScript numbers\<close>

text \<open>
  A JavaScript number is NaN, one of the two infinities, or a finite value. A finite value
  is modelled by the decimal that \<^verbatim>\<open>Number::toString\<close> prints for it: \<open>Dec m e\<close> stands
  for \<open>m * 10 ^ e\<close>, where \<open>m\<close> is not a multiple of ten, and zero is \<open>Dec 0 0\<close>
  (ECMAScript picks the shortest digit string \<open>s\<close> and exponent \<open>n\<close> that identify
  the value, so every finite binary64 value is one such decimal). The model works on
  these decimals exactly: rounding to binary64 (a numeral with more than 17 significant
  digits, or beyond \<open>1.8e308\<close>) and the sign of zero are not represented.
\<close>

datatype jsnum = NaN | PosInfinity | NegInfinity | Dec int int

function dec_norm :: "int \<Rightarrow> int \<Rightarrow> jsnum" where
  "dec_norm m e =
     (if m = 0 then Dec 0 0
      else if m mod 10 = 0 then dec_norm (m div 10) (e + 1)
      else Dec m e)"
  by pat_completeness auto
termination
  by (relation "measure (\<lambda>(m, e). nat \<bar>m\<bar>)") auto

declare dec_norm.simps [simp del]


subsection \<open>\<^verbatim>\<open>String(x)\<close> for a number\<close>

text \<open>
  \<^verbatim>\<open>Number::toString\<close> (ECMAScript 6.1.6.1.20), radix 10. For a positive value with the
  \<open>k\<close> digits \<open>digs\<close> and the decimal point after \<open>n\<close> digits: plain digits and
  zeros when \<open>k \<le> n \<le> 21\<close>, a point inside when \<open>0 < n \<le> 21\<close>, \<^verbatim>\<open>0.000ddd\<close> when
  \<open>-6 < n \<le> 0\<close>, and exponent notation otherwise.
\<close>

definition positive_toString :: "string \<Rightarrow> int \<Rightarrow> string" where
  "positive_toString digs n =
     (let k = int (length digs) in
      if k \<le> n \<and> n \<le> 21 then digs @ replicate (nat (n - k)) (CHR ''0'')
      else if 0 < n \<and> n \<le> 21 then take (nat n) digs @ ''.'' @ drop (nat n) digs
      else if - 6 < n \<and> n \<le> 0 then ''0.'' @ replicate (nat (- n)) (CHR ''0'') @ digs
      else
        (let ex = n - 1;
             sgn = (if ex < 0 then CHR ''-'' else CHR ''+'');
             exs = show_nat (nat \<bar>ex\<bar>)
         in if k = 1 then digs @ ''e'' @ [sgn] @ exs
            else take 1 digs @ ''.'' @ drop 1 digs @ ''e'' @ [sgn] @ exs))"

fun Number_toString :: "jsnum \<Rightarrow> string" where
  "Number_toString NaN = ''NaN''"
| "Number_toString PosInfinity = ''Infinity''"
| "Number_toString NegInfinity = ''-Infinity''"
| "Number_toString (Dec m e) =
     (if m = 0 then ''0''
      else if m < 0 then
        ''-'' @ positive_toString (show_nat (nat (- m))) (e + int (length (show_nat (nat (- m)))))
      else positive_toString (show_nat (nat m)) (e + int (length (show_nat (nat m)))))"

subsection \<open>\<^verbatim>\<open>Number(s)\<close> for a string\<close>

text \<open>
  \<^verbatim>\<open>StringToNumber\<close> (ECMAScript 7.1.4.1.1): white space is trimmed; the empty string is
  zero; \<^verbatim>\<open>0x\<close>, \<^verbatim>\<open>0o\<close> and \<^verbatim>\<open>0b\<close> literals carry no sign; a decimal literal is an
  optional sign and then \<^verbatim>\<open>Infinity\<close>, or digits with an optional fraction and an optional
  exponent, or a point and digits with an optional exponent. Anything else is NaN.
\<close>

definition is_hex_digit :: "char \<Rightarrow> bool" where
  "is_hex_digit c \<longleftrightarrow> c \<in> set ''0123456789abcdefABCDEF''"

definition hex_val :: "char \<Rightarrow> nat" where
  "hex_val c =
     (if is_digit c then of_char c - 48
      else if c \<in> set ''abcdef'' then of_char c - 87
      else of_char c - 55)"

definition is_octal_digit :: "char \<Rightarrow> bool" where
  "is_octal_digit c \<longleftrightarrow> c \<in> set ''01234567''"

definition is_binary_digit :: "char \<Rightarrow> bool" where
  "is_binary_digit c \<longleftrightarrow> c \<in> set ''01''"

definition parse_exponent :: "string \<Rightarrow> int option" where
  "parse_exponent s =
     (case s of
        [] \<Rightarrow> None
      | c # r \<Rightarrow>
          (let neg = (c = CHR ''-'');
               ds = (if c = CHR ''-'' \<or> c = CHR ''+'' then r else s)
           in if ds \<noteq> [] \<and> list_all is_digit ds
              then Some (if neg then - int (parseInt10 ds) else int (parseInt10 ds))
              else None))"

definition parse_unsigned_decimal :: "string \<Rightarrow> (nat \<times> int) option" where
  "parse_unsigned_decimal s =
     (let ip = takeWhile is_digit s;
          r1 = dropWhile is_digit s;
          dot = (r1 \<noteq> [] \<and> hd r1 = CHR ''.'');
          fp = (if dot then takeWhile is_digit (tl r1) else []);
          r2 = (if dot then dropWhile is_digit (tl r1) else r1)
      in if ip = [] \<and> fp = [] then None
         else
           (case r2 of
              [] \<Rightarrow> Some (parseInt10 (ip @ fp), - int (length fp))
            | c # r3 \<Rightarrow>
                if c = CHR ''e'' \<or> c = CHR ''E'' then
                  (case parse_exponent r3 of
                     None \<Rightarrow> None
                   | Some ex \<Rightarrow> Some (parseInt10 (ip @ fp), ex - int (length fp)))
                else None))"

definition radix_literal :: "nat \<Rightarrow> (char \<Rightarrow> bool) \<Rightarrow> string \<Rightarrow> jsnum" where
  "radix_literal b ok ds =
     (if ds \<noteq> [] \<and> list_all ok ds then dec_norm (int (digits_val b hex_val ds)) 0 else NaN)"

definition StringToNumber :: "string \<Rightarrow> jsnum" where
  "StringToNumber s =
     (let t = trim s in
      if t = [] then Dec 0 0
      else if startsWith ''0x'' t \<or> startsWith ''0X'' t then radix_literal 16 is_hex_digit (drop 2 t)
      else if startsWith ''0o'' t \<or> startsWith ''0O'' t then radix_literal 8 is_octal_digit (drop 2 t)
      else if startsWith ''0b'' t \<or> startsWith ''0B'' t then radix_literal 2 is_binary_digit (drop 2 t)
      else
        (let neg = (hd t = CHR ''-'');
             u = (if hd t = CHR ''-'' \<or> hd t = CHR ''+'' then tl t else t)
         in if u = ''Infinity'' then (if neg then NegInfinity else PosInfinity)
            else
              (case parse_unsigned_decimal u of
                 None \<Rightarrow> NaN
               | Some (m, e) \<Rightarrow> dec_norm (if neg then - int m else int m) e)))"

section \<open>Values\<close>

text \<open>
  The codec receives the result of \<^verbatim>\<open>JSON.parse\<close> and returns what \<^verbatim>\<open>JSON.stringify\<close>
  prints. An object is the list of its own properties in the order of \<^verbatim>\<open>Object.keys\<close>;
  a JavaScript object has no two properties of the same name. The prototype of an object is
  not represented: \<^verbatim>\<open>key in item\<close> and \<^verbatim>\<open>item[key]\<close> look at own properties only, which is
  what they do for every key that names no property of \<^verbatim>\<open>Object.prototype\<close>.
\<close>

datatype json =
    Null
  | Bool bool
  | Number jsnum
  | String string
  | Array "json list"
  | Object "(string \<times> json) list"

datatype js_error = TypeError | InvalidArrayHeader

fun isObject :: "json \<Rightarrow> bool" where
  "isObject (Object kvs) = True"
| "isObject _ = False"

fun Object_keys :: "json \<Rightarrow> string list" where
  "Object_keys (Object kvs) = map fst kvs"
| "Object_keys _ = []"

text \<open>\<^verbatim>\<open>item[key]\<close>; \<open>None\<close> is \<^verbatim>\<open>undefined\<close>.\<close>

fun js_get :: "json \<Rightarrow> string \<Rightarrow> json option" where
  "js_get (Object kvs) key = map_of kvs key"
| "js_get _ key = None"

subsection \<open>Assignment to a property\<close>

text \<open>
  \<^verbatim>\<open>obj[key] = v\<close> replaces the value of an existing property where it stands. A new
  property goes to the end, except that array indices (the canonical decimal strings below
  \<open>2^32 - 1\<close>) come first, in ascending numeric order. The key \<^verbatim>\<open>__proto__\<close> is the accessor
  of \<^verbatim>\<open>Object.prototype\<close>: on the fresh objects of the decoder the assignment runs its setter,
  which creates no property (it replaces the prototype when the value is \<^verbatim>\<open>null\<close> or an
  object, and is not followed further here).
\<close>

definition is_array_index :: "string \<Rightarrow> bool" where
  "is_array_index k \<longleftrightarrow>
     k \<noteq> [] \<and> list_all is_digit k \<and> show_nat (parseInt10 k) = k \<and> parseInt10 k < 4294967295"

fun replace_value :: "string \<Rightarrow> json \<Rightarrow> (string \<times> json) list \<Rightarrow> (string \<times> json) list" where
  "replace_value k v [] = []"
| "replace_value k v ((k', v') # kvs) =
     (if k' = k then (k, v) # kvs else (k', v') # replace_value k v kvs)"

fun insert_index :: "string \<Rightarrow> json \<Rightarrow> (string \<times> json) list \<Rightarrow> (string \<times> json) list" where
  "insert_index k v [] = [(k, v)]"
| "insert_index k v ((k', v') # kvs) =
     (if is_array_index k' \<and> parseInt10 k' < parseInt10 k
      then (k', v') # insert_index k v kvs
      else (k, v) # (k', v') # kvs)"

definition js_set :: "(string \<times> json) list \<Rightarrow> string \<Rightarrow> json \<Rightarrow> (string \<times> json) list" where
  "js_set obj k v =
     (if k = ''__proto__'' then obj
      else if k \<in> set (map fst obj) then replace_value k v obj
      else if is_array_index k then insert_index k v obj
      else obj @ [(k, v)])"

subsection \<open>Results that may throw\<close>

fun sequence :: "('e + 'a) list \<Rightarrow> 'e + 'a list" where
  "sequence [] = Inr []"
| "sequence (x # xs) =
     (case x of
        Inl e \<Rightarrow> Inl e
      | Inr v \<Rightarrow> (case sequence xs of Inl e \<Rightarrow> Inl e | Inr vs \<Rightarrow> Inr (v # vs)))"

section \<open>The encoder\<close>

subsection \<open>\<^verbatim>\<open>String(value)\<close>\<close>

text \<open>
  \<^verbatim>\<open>String(value)\<close> is \<^verbatim>\<open>ToString\<close>. An array prints as its elements joined by commas,
  \<^verbatim>\<open>null\<close> elements as the empty string. An object goes through \<^verbatim>\<open>OrdinaryToPrimitive\<close>
  with hint string: its \<^verbatim>\<open>toString\<close> property is called if it is callable, then its
  \<^verbatim>\<open>valueOf\<close>. For the result of \<^verbatim>\<open>JSON.parse\<close> no own property is callable, so an object
  with an own \<^verbatim>\<open>toString\<close> property gets past it to \<^verbatim>\<open>valueOf\<close>, which (its own, not
  callable, or the inherited one, returning the object itself) yields no primitive, and
  the conversion throws a TypeError. Without an own \<^verbatim>\<open>toString\<close> the inherited one returns
  \<^verbatim>\<open>[object Object]\<close>.
\<close>

fun ToString :: "json \<Rightarrow> js_error + string" where
  "ToString Null = Inr ''null''"
| "ToString (Bool b) = Inr (if b then ''true'' else ''false'')"
| "ToString (Number n) = Inr (Number_toString n)"
| "ToString (String s) = Inr s"
| "ToString (Array xs) =
     (case sequence (map (\<lambda>x. if x = Null then Inr [] else ToString x) xs) of
        Inl e \<Rightarrow> Inl e
      | Inr parts \<Rightarrow> Inr (join '','' parts))"
| "ToString (Object kvs) =
     (if ''toString'' \<in> set (map fst kvs) then Inl TypeError else Inr ''[object Object]'')"

text \<open>\<^verbatim>\<open>formatToonValue\<close>, lines 943 to 954.\<close>

fun formatToonValue :: "json \<Rightarrow> js_error + string" where
  "formatToonValue Null = Inr ''null''"
| "formatToonValue (String s) = Inr s"
| "formatToonValue (Number n) = ToString (Number n)"
| "formatToonValue (Bool b) = ToString (Bool b)"
| "formatToonValue v = ToString v"

subsection \<open>The tabular form\<close>

text \<open>
  The test of lines 861 to 873, written a second time at lines 897 to 909: the first
  element is an object, every element is an object with as many keys as the first and with
  each of its keys, and there is at least one key. The result is the column keys.
\<close>

definition allSameStructure :: "string list \<Rightarrow> json list \<Rightarrow> bool" where
  "allSameStructure keys xs \<longleftrightarrow>
     list_all (\<lambda>item. isObject item \<and> length (Object_keys item) = length keys \<and>
                       list_all (\<lambda>key. key \<in> set (Object_keys item)) keys) xs"

definition tabular_keys :: "json list \<Rightarrow> string list option" where
  "tabular_keys xs =
     (case xs of
        [] \<Rightarrow> None
      | firstItem # _ \<Rightarrow>
          if isObject firstItem then
            (let keys = Object_keys firstItem
             in if allSameStructure keys xs \<and> keys \<noteq> [] then Some keys else None)
          else None)"

text \<open>A cell is \<^verbatim>\<open>formatToonValue(item[key])\<close>; \<^verbatim>\<open>String(undefined)\<close> is \<^verbatim>\<open>undefined\<close>.\<close>

definition format_cell :: "json \<Rightarrow> string \<Rightarrow> js_error + string" where
  "format_cell item key =
     (case js_get item key of None \<Rightarrow> Inr ''undefined'' | Some v \<Rightarrow> formatToonValue v)"

definition format_row :: "string list \<Rightarrow> json \<Rightarrow> js_error + string" where
  "format_row keys item =
     (case sequence (map (format_cell item) keys) of
        Inl e \<Rightarrow> Inl e
      | Inr cells \<Rightarrow> Inr (join '','' cells))"

definition array_header :: "nat \<Rightarrow> string list \<Rightarrow> string" where
  "array_header n keys = ''['' @ show_nat n @ '']{'' @ join '','' keys @ ''}:''"

text \<open>A value that is a non-empty array in tabular form, with its column keys.\<close>

definition table_of :: "json \<Rightarrow> (json list \<times> string list) option" where
  "table_of v =
     (case v of
        Array arr \<Rightarrow> (case tabular_keys arr of None \<Rightarrow> None | Some keys \<Rightarrow> Some (arr, keys))
      | _ \<Rightarrow> None)"

subsection \<open>\<^verbatim>\<open>jsonToToon\<close>, lines 843 to 941\<close>

definition indent_lines :: "string \<Rightarrow> string list" where
  "indent_lines nested = map (\<lambda>line. ''  '' @ line) (split (CHR 0x0A) nested)"

definition needs_block :: "string \<Rightarrow> bool" where
  "needs_block nested \<longleftrightarrow>
     includes_char (CHR 0x0A) nested \<or> includes_char (CHR ''['') nested \<or>
     includes_char (CHR ''{'') nested"

fun jsonToToon :: "json \<Rightarrow> js_error + string" where
  "jsonToToon Null = Inr ''null''"
| "jsonToToon (String s) = Inr s"
| "jsonToToon (Number n) = ToString (Number n)"
| "jsonToToon (Bool b) = ToString (Bool b)"
| "jsonToToon (Array obj) =
     (if obj = [] then Inr ''[]:''
      else
        (case tabular_keys obj of
           Some keys \<Rightarrow>
             (case sequence (map (format_row keys) obj) of
                Inl e \<Rightarrow> Inl e
              | Inr rows \<Rightarrow>
                  Inr (array_header (length obj) keys @ [CHR 0x0A] @ join [CHR 0x0A] rows))
         | None \<Rightarrow>
             (case sequence (map jsonToToon obj) of
                Inl e \<Rightarrow> Inl e
              | Inr items \<Rightarrow> Inr (join [CHR 0x0A] items))))"
| "jsonToToon (Object obj) =
     (if obj = [] then Inr ''{}:''
      else
        (case sequence (map (\<lambda>(key, v).
                 (case table_of v of
                    Some (arr, arrayKeys) \<Rightarrow>
                      (case sequence (map (format_row arrayKeys) arr) of
                         Inl e \<Rightarrow> Inl e
                       | Inr rows \<Rightarrow> Inr ((key @ array_header (length arr) arrayKeys) # rows))
                  | None \<Rightarrow>
                      if isObject v then
                        (case jsonToToon v of
                           Inl e \<Rightarrow> Inl e
                         | Inr nested \<Rightarrow>
                             if needs_block nested
                             then Inr ((key @ '':'') # indent_lines nested)
                             else Inr [key @ '': '' @ nested])
                      else
                        (case formatToonValue v of
                           Inl e \<Rightarrow> Inl e
                         | Inr formattedValue \<Rightarrow> Inr [key @ '': '' @ formattedValue]))) obj) of
           Inl e \<Rightarrow> Inl e
         | Inr lines \<Rightarrow> Inr (join [CHR 0x0A] (concat lines))))"

section \<open>The decoder\<close>

subsection \<open>Lines and line shapes\<close>

text \<open>Line 957: \<^verbatim>\<open>toonString.trim().split('\n').filter(line => line.trim())\<close>.\<close>

definition toon_lines :: "string \<Rightarrow> string list" where
  "toon_lines toonString = filter (\<lambda>line. trim line \<noteq> []) (split (CHR 0x0A) (trim toonString))"

text \<open>
  The regular expression \<^verbatim>\<open>^\[(\d+)\]\{(.*)\}:$\<close> and its two groups. After the bracket
  the digits are all the digits there are; the body is what stands between \<^verbatim>\<open>]{\<close> and the
  final \<^verbatim>\<open>}:\<close>, and holds no line terminator. The dispatch of lines 972 and 1023 accepts
  an empty body; the header of line 985 (\<^verbatim>\<open>.+\<close>) does not.
\<close>

definition match_header :: "string \<Rightarrow> (string \<times> string) option" where
  "match_header s =
     (case s of
        [] \<Rightarrow> None
      | c # r \<Rightarrow>
          (let ds = takeWhile is_digit r;
               r1 = dropWhile is_digit r;
               r2 = drop 2 r1;
               n = length r2;
               body = take (n - 2) r2
           in if c = CHR ''['' \<and> ds \<noteq> [] \<and> take 2 r1 = '']{'' \<and> 2 \<le> n \<and>
                 drop (n - 2) r2 = ''}:'' \<and> list_all (\<lambda>c. \<not> is_line_terminator c) body
              then Some (ds, body) else None))"

definition header_dispatch :: "string \<Rightarrow> bool" where
  "header_dispatch s \<longleftrightarrow> match_header s \<noteq> None"

definition header_full :: "string \<Rightarrow> (string \<times> string) option" where
  "header_full s =
     (case match_header s of
        None \<Rightarrow> None
      | Some (ds, body) \<Rightarrow> if body = [] then None else Some (ds, body))"

text \<open>
  The regular expression \<^verbatim>\<open>^[^:]+:\s\<close> of line 1026: the first colon is not the first
  character, and a white space character follows it.
\<close>

definition looks_like_key_line :: "string \<Rightarrow> bool" where
  "looks_like_key_line s \<longleftrightarrow>
     (let i = indexOf (CHR '':'') s
      in 0 < i \<and> nat i + 1 < length s \<and> is_space (s ! (nat i + 1)))"

subsection \<open>\<^verbatim>\<open>parseToonValue\<close>, lines 1070 to 1088\<close>

definition parseToonValue :: "string \<Rightarrow> json" where
  "parseToonValue v =
     (if v = ''null'' then Null
      else if v = ''true'' then Bool True
      else if v = ''false'' then Bool False
      else if v = [] then String []
      else
        (let numValue = StringToNumber v
         in if numValue \<noteq> NaN \<and> trim v \<noteq> [] then Number numValue else String v))"

subsection \<open>\<^verbatim>\<open>parseToonArray\<close>, lines 979 to 1004\<close>

text \<open>\<^verbatim>\<open>values[index] || ''\<close>: a missing cell is the empty string.\<close>

definition cell_at :: "string list \<Rightarrow> nat \<Rightarrow> string" where
  "cell_at vs index = (if index < length vs then vs ! index else [])"

definition parse_row :: "string list \<Rightarrow> string \<Rightarrow> json" where
  "parse_row keys line =
     (let vs = map trim (split (CHR '','') line)
      in Object (foldl (\<lambda>item (key, index). js_set item key (parseToonValue (cell_at vs index)))
                   [] (zip keys [0..<length keys])))"

text \<open>The loop of line 994 on the lines from \<open>i\<close> on, with the rows made so far.\<close>

fun rows_loop :: "nat \<Rightarrow> string list \<Rightarrow> string list \<Rightarrow> json list \<Rightarrow> json list" where
  "rows_loop count keys [] result = result"
| "rows_loop count keys (line # rest) result =
     (if length result < count then rows_loop count keys rest (result @ [parse_row keys line])
      else result)"

definition parseToonArray :: "string list \<Rightarrow> js_error + json list" where
  "parseToonArray lines =
     (case lines of
        [] \<Rightarrow> Inr []
      | l # rest \<Rightarrow>
          (case header_full (trim l) of
             None \<Rightarrow> Inl InvalidArrayHeader
           | Some (ds, body) \<Rightarrow>
               Inr (rows_loop (parseInt10 ds) (map trim (split (CHR '','') body)) rest [])))"

subsection \<open>\<^verbatim>\<open>parseToonObject\<close>, lines 1006 to 1068\<close>

text \<open>
  The loop on the lines from \<open>i\<close> on, with the object built so far. The two inner loops
  collect the longest run of lines that pass their test: the rows of a table (line 1026)
  and the lines of an indented block (line 1038).
\<close>

definition is_row_line :: "string \<Rightarrow> bool" where
  "is_row_line l \<longleftrightarrow> \<not> endsWith_colon (trim l) \<and> \<not> looks_like_key_line (trim l)"

function parseToonObject_loop ::
  "(string \<times> json) list \<Rightarrow> string list \<Rightarrow> js_error + (string \<times> json) list" where
  "parseToonObject_loop result [] = Inr result"
| "parseToonObject_loop result (l # rest) =
     (let line = trim l in
      if line = [] then parseToonObject_loop result rest
      else if endsWith_colon line then
        (let key = trim (butlast line) in
         case rest of
           [] \<Rightarrow> parseToonObject_loop (js_set result key Null) []
         | nl # rest' \<Rightarrow>
             (let nextLine = trim nl in
              if header_dispatch nextLine then
                (case parseToonArray (nextLine # takeWhile is_row_line rest') of
                   Inl e \<Rightarrow> Inl e
                 | Inr arr \<Rightarrow>
                     parseToonObject_loop (js_set result key (Array arr))
                       (dropWhile is_row_line rest'))
              else if startsWith ''  '' nextLine then
                (case parseToonObject_loop []
                        (map (drop 2) (takeWhile (startsWith ''  '') rest)) of
                   Inl e \<Rightarrow> Inl e
                 | Inr nested \<Rightarrow>
                     parseToonObject_loop (js_set result key (Object nested))
                       (dropWhile (startsWith ''  '') rest))
              else parseToonObject_loop (js_set result key (parseToonValue nextLine)) rest'))
      else
        (let colonIndex = indexOf (CHR '':'') line in
         if 0 < colonIndex then
           parseToonObject_loop
             (js_set result (trim (take (nat colonIndex) line))
                (parseToonValue (trim (drop (nat colonIndex + 1) line))))
             rest
         else parseToonObject_loop result rest))"
  by pat_completeness auto
termination
proof (relation "measure (\<lambda>(result, lines). length lines)")
  show "wf (measure (\<lambda>(result, lines). length lines))"
    by simp
qed (auto simp: less_Suc_eq_le length_dropWhile_le le_SucI
      intro: le_trans [OF length_takeWhile_le])

declare parseToonObject_loop.simps [simp del]

definition parseToonObject :: "string list \<Rightarrow> js_error + (string \<times> json) list" where
  "parseToonObject lines = parseToonObject_loop [] lines"

subsection \<open>\<^verbatim>\<open>toonToJson\<close>, lines 956 to 977\<close>

definition toonToJson :: "string \<Rightarrow> js_error + json" where
  "toonToJson toonString =
     (let lines = toon_lines toonString in
      if lines = [] then Inr (Object [])
      else
        (let firstLine = trim (hd lines) in
         if firstLine = ''[]:'' then Inr (Array [])
         else if firstLine = ''{}:'' then Inr (Object [])
         else if header_dispatch firstLine then
           (case parseToonArray lines of Inl e \<Rightarrow> Inl e | Inr arr \<Rightarrow> Inr (Array arr))
         else
           (case parseToonObject lines of Inl e \<Rightarrow> Inl e | Inr obj \<Rightarrow> Inr (Object obj))))"

section \<open>Encoding and then decoding\<close>

definition decode_encode :: "json \<Rightarrow> js_error + json" where
  "decode_encode v = (case jsonToToon v of Inl e \<Rightarrow> Inl e | Inr t \<Rightarrow> toonToJson t)"

text \<open>The characters that \<^verbatim>\<open>String\<close> of a number can hold.\<close>

definition number_char :: "char \<Rightarrow> bool" where
  "number_char c \<longleftrightarrow> c \<in> set ''0123456789.e+-NaInfity''"

section \<open>The table headers the decoder enters\<close>

text \<open>
  The header lines on which \<^verbatim>\<open>parseToonArray\<close> is entered, in the order of the calls, were no
  call to throw: the loop of \<^verbatim>\<open>parseToonObject\<close> with the object left out (lines 1023 to 1033
  pass the trimmed next line, lines 1035 to 1045 descend into the block), and the dispatch
  of \<^verbatim>\<open>toonToJson\<close> (line 972).
\<close>

function object_entries :: "string list \<Rightarrow> string list" where
  "object_entries [] = []"
| "object_entries (l # rest) =
     (let line = trim l in
      if line = [] then object_entries rest
      else if endsWith_colon line then
        (case rest of
           [] \<Rightarrow> []
         | nl # rest' \<Rightarrow>
             (let nextLine = trim nl in
              if header_dispatch nextLine then
                nextLine # object_entries (dropWhile is_row_line rest')
              else if startsWith ''  '' nextLine then
                object_entries (map (drop 2) (takeWhile (startsWith ''  '') rest)) @
                object_entries (dropWhile (startsWith ''  '') rest)
              else object_entries rest'))
      else object_entries rest)"
  by pat_completeness auto
termination
proof (relation "measure length")
  show "wf (measure length)"
    by simp
qed (auto simp: less_Suc_eq_le length_dropWhile_le le_SucI
      intro: le_trans [OF length_takeWhile_le])

declare object_entries.simps [simp del]

definition array_entries :: "string \<Rightarrow> string list" where
  "array_entries toonString =
     (let lines = toon_lines toonString in
      if lines = [] then []
      else
        (let firstLine = trim (hd lines) in
         if firstLine = ''[]:'' \<or> firstLine = ''{}:'' then []
         else if header_dispatch firstLine then [firstLine]
         else object_entries lines))"

section \<open>The lines the object loop stands at\<close>

text \<open>
  The values that the index \<open>i\<close> of the loop of \<^verbatim>\<open>parseToonObject\<close> takes while it is below
  \<^verbatim>\<open>lines.length\<close> (line 1010): it starts at 0, goes on by one after a blank line and
  after a line that does not end with a colon (lines 1013 and 1063), by two after a line
  that ends with a colon and the line read as its value (line 1050), and to the first line
  that is no row after a table header (line 1031) or that is not indented after an
  indented block (line 1043). The lines in between are read ahead and the loop does not
  stand at them.
\<close>

function loop_at :: "string list \<Rightarrow> nat \<Rightarrow> bool" where
  "loop_at [] i = False"
| "loop_at (l # rest) i =
     (if i = 0 then True
      else
        (let line = trim l in
         if line = [] then loop_at rest (i - 1)
         else if endsWith_colon line then
           (case rest of
              [] \<Rightarrow> False
            | nl # rest' \<Rightarrow>
                (let nextLine = trim nl in
                 if header_dispatch nextLine then
                   (let n = length (takeWhile is_row_line rest')
                    in n + 2 \<le> i \<and> loop_at (dropWhile is_row_line rest') (i - (n + 2)))
                 else if startsWith ''  '' nextLine then
                   (let n = length (takeWhile (startsWith ''  '') rest)
                    in n + 1 \<le> i \<and> loop_at (dropWhile (startsWith ''  '') rest) (i - (n + 1)))
                 else 2 \<le> i \<and> loop_at rest' (i - 2)))
         else loop_at rest (i - 1)))"
  by pat_completeness auto
termination
proof (relation "measure (\<lambda>(lines, i). length lines)")
  show "wf (measure (\<lambda>(lines, i). length lines))"
    by simp
qed (auto simp: less_Suc_eq_le length_dropWhile_le le_SucI)

declare loop_at.simps [simp del]

section \<open>Auxiliary notions for the statements\<close>

text \<open>
  The assignments of line 998, as a function of the cells: the pairs of a column key and
  its index are assigned from left to right to the object built so far.
\<close>

definition assign_cells ::
  "(nat \<Rightarrow> json) \<Rightarrow> (string \<times> json) list \<Rightarrow> (string \<times> nat) list \<Rightarrow> (string \<times> json) list" where
  "assign_cells f acc ps = foldl (\<lambda>item (key, index). js_set item key (f index)) acc ps"

text \<open>A non-empty string without white space at either end: \<^verbatim>\<open>trim\<close> leaves it as it is.\<close>

definition trimmed :: "string \<Rightarrow> bool" where
  "trimmed s \<longleftrightarrow> s \<noteq> [] \<and> \<not> is_space (hd s) \<and> \<not> is_space (last s)"

text \<open>
  The order of \<^verbatim>\<open>Object.keys\<close>: the array indices in ascending numeric order, then the other
  keys as they were inserted. The keys of every JavaScript object stand in this order.
\<close>

definition key_precedes :: "string \<Rightarrow> string \<Rightarrow> bool" where
  "key_precedes a b \<longleftrightarrow> (is_array_index b \<longrightarrow> is_array_index a \<and> parseInt10 a < parseInt10 b)"

definition js_ordered :: "string list \<Rightarrow> bool" where
  "js_ordered ks \<longleftrightarrow> sorted_wrt key_precedes ks"

text \<open>The scalars, and the text \<^verbatim>\<open>formatToonValue\<close> gives a scalar.\<close>

fun is_scalar :: "json \<Rightarrow> bool" where
  "is_scalar (Array xs) = False"
| "is_scalar (Object kvs) = False"
| "is_scalar _ = True"

fun scalar_text :: "json \<Rightarrow> string" where
  "scalar_text Null = ''null''"
| "scalar_text (Bool b) = (if b then ''true'' else ''false'')"
| "scalar_text (Number n) = Number_toString n"
| "scalar_text (String s) = s"
| "scalar_text _ = []"

text \<open>The line of lines 932 and 933 for a key with a scalar value.\<close>

definition entry_line :: "string \<times> json \<Rightarrow> string" where
  "entry_line p = fst p @ '': '' @ scalar_text (snd p)"






section \<open>Strings: basic facts\<close>

lemma trim_Nil [simp]: "trim [] = []"
  by (simp add: trim_def)

lemma trim_blank: "\<forall>c\<in>set s. is_space c \<Longrightarrow> trim s = []"
proof -
  assume "\<forall>c\<in>set s. is_space c"
  then have "dropWhile is_space s = []"
    by simp
  then show ?thesis
    unfolding trim_def by (simp only: rev.simps dropWhile.simps)
qed

lemma trim_eq_Nil_iff: "trim s = [] \<longleftrightarrow> (\<forall>c\<in>set s. is_space c)"
proof
  assume t: "trim s = []"
  show "\<forall>c\<in>set s. is_space c"
  proof (rule ccontr)
    assume "\<not> (\<forall>c\<in>set s. is_space c)"
    then have ne: "dropWhile is_space s \<noteq> []"
      by simp
    then have "\<not> is_space (hd (dropWhile is_space s))"
      by (rule hd_dropWhile)
    moreover have "hd (dropWhile is_space s) \<in> set (dropWhile is_space s)"
      using ne by simp
    moreover from t have "\<forall>c\<in>set (dropWhile is_space s). is_space c"
      by (simp add: trim_def)
    ultimately show False
      by blast
  qed
next
  assume "\<forall>c\<in>set s. is_space c"
  then show "trim s = []"
    by (rule trim_blank)
qed

lemma set_trim_subset: "set (trim s) \<subseteq> set s"
proof -
  have "set (trim s) \<subseteq> set (rev (dropWhile is_space s))"
    unfolding trim_def by (auto dest: set_dropWhileD)
  also have "\<dots> \<subseteq> set s"
    by (auto dest: set_dropWhileD)
  finally show ?thesis .
qed

lemma split_not_Nil [simp]: "split c s \<noteq> []"
  by (induction s) (auto split: list.splits)

lemma set_split_subset: "l \<in> set (split c s) \<Longrightarrow> set l \<subseteq> set s"
proof (induction s arbitrary: l)
  case Nil
  then show ?case by simp
next
  case (Cons x xs)
  show ?case
  proof (cases "x = c")
    case True
    with Cons show ?thesis by auto
  next
    case False
    obtain y ys where sp: "split c xs = y # ys"
      by (cases "split c xs") auto
    with False Cons.prems have "l = x # y \<or> l \<in> set ys"
      by auto
    then show ?thesis
    proof
      assume "l = x # y"
      moreover have "set y \<subseteq> set xs"
        using Cons.IH [of y] sp by simp
      ultimately show ?thesis by auto
    next
      assume "l \<in> set ys"
      then have "set l \<subseteq> set xs"
        using Cons.IH [of l] sp by simp
      then show ?thesis by auto
    qed
  qed
qed

lemma indexOf_absent: "c \<notin> set s \<Longrightarrow> indexOf c s = - 1"
  by (induction s) (auto simp: Let_def)

lemma indexOf_ge: "- 1 \<le> indexOf c s"
  by (induction s) (auto simp: Let_def)

lemma endsWith_colon_mem: "endsWith_colon s \<Longrightarrow> CHR '':'' \<in> set s"
  unfolding endsWith_colon_def by (metis last_in_set)

lemma loop_skip:
  assumes "\<not> endsWith_colon (trim l)" and "indexOf (CHR '':'') (trim l) \<le> 0"
  shows "parseToonObject_loop result (l # rest) = parseToonObject_loop result rest"
  using assms by (simp add: parseToonObject_loop.simps Let_def)

lemma colon_free_skip:
  assumes "CHR '':'' \<notin> set l"
  shows "parseToonObject_loop result (l # rest) = parseToonObject_loop result rest"
proof (rule loop_skip)
  from assms set_trim_subset [of l] have nc: "CHR '':'' \<notin> set (trim l)"
    by blast
  then show "\<not> endsWith_colon (trim l)"
    by (blast dest: endsWith_colon_mem)
  from nc show "indexOf (CHR '':'') (trim l) \<le> 0"
    by (simp add: indexOf_absent)
qed

lemma loop_colon_free:
  "\<forall>l\<in>set ls. CHR '':'' \<notin> set l \<Longrightarrow> parseToonObject_loop result ls = Inr result"
  by (induction ls) (simp_all add: parseToonObject_loop.simps(1) colon_free_skip)

lemma match_header_colon: "match_header s = Some x \<Longrightarrow> CHR '':'' \<in> set s"
proof -
  assume m: "match_header s = Some x"
  then obtain c r where s: "s = c # r"
    by (cases s) (auto simp: match_header_def)
  let ?r1 = "dropWhile is_digit r"
  let ?r2 = "drop 2 ?r1"
  from m s have "drop (length ?r2 - 2) ?r2 = ''}:''"
    by (auto simp: match_header_def Let_def split: if_splits)
  then have "CHR '':'' \<in> set (drop (length ?r2 - 2) ?r2)"
    by simp
  then have "CHR '':'' \<in> set ?r1"
    by (blast dest: in_set_dropD)
  then have "CHR '':'' \<in> set r"
    by (blast dest: set_dropWhileD)
  with s show ?thesis by simp
qed

lemma toonToJson_colon_free:
  assumes "CHR '':'' \<notin> set t"
  shows "toonToJson t = Inr (Object [])"
proof -
  have lines: "\<forall>l\<in>set (toon_lines t). CHR '':'' \<notin> set l"
  proof
    fix l assume "l \<in> set (toon_lines t)"
    then have "l \<in> set (split (CHR 0x0A) (trim t))"
      by (simp add: toon_lines_def)
    then have "set l \<subseteq> set (trim t)"
      by (rule set_split_subset)
    with set_trim_subset [of t] assms show "CHR '':'' \<notin> set l"
      by blast
  qed
  show ?thesis
  proof (cases "toon_lines t")
    case Nil
    then show ?thesis by (simp add: toonToJson_def)
  next
    case (Cons l ls)
    with lines have "CHR '':'' \<notin> set l"
      by simp
    with set_trim_subset [of l] have nc: "CHR '':'' \<notin> set (trim l)"
      by blast
    then have "trim l \<noteq> ''[]:''" "trim l \<noteq> ''{}:''"
      by auto
    moreover from nc have "\<not> header_dispatch (trim l)"
      by (auto simp: header_dispatch_def dest: match_header_colon)
    moreover have "parseToonObject (toon_lines t) = Inr []"
      using lines by (simp add: parseToonObject_def loop_colon_free)
    ultimately show ?thesis
      using Cons by (simp add: toonToJson_def Let_def)
  qed
qed

section \<open>Numbers: printing\<close>

lemma digit_char_is_digit: "d < 10 \<Longrightarrow> is_digit (digit_char d)"
  unfolding is_digit_def digit_char_def by (rule nth_mem) simp


lemma show_nat_digits: "list_all is_digit (show_nat n)"
proof (induction n rule: show_nat.induct)
  case (1 n)
  show ?case
  proof (cases "n < 10")
    case True
    then show ?thesis
      by (subst show_nat.simps) (simp add: digit_char_is_digit)
  next
    case False
    with 1 show ?thesis
      by (subst show_nat.simps) (simp add: digit_char_is_digit)
  qed
qed

lemma show_nat_not_Nil [simp]: "show_nat n \<noteq> []"
  by (subst show_nat.simps) simp


lemma parseInt10_Nil [simp]: "parseInt10 [] = 0"
  by (simp add: parseInt10_def digits_val_def)



lemma is_digit_number_char: "is_digit c \<Longrightarrow> number_char c"
  by (auto simp: is_digit_def number_char_def)

lemma number_char_consts:
  "number_char (CHR ''0'')" "number_char (CHR ''.'')" "number_char (CHR ''e'')"
  "number_char (CHR ''+'')" "number_char (CHR ''-'')"
  by (simp_all add: number_char_def)

lemma show_nat_number_chars: "list_all number_char (show_nat n)"
  using show_nat_digits [of n] by (auto simp: list_all_iff dest: is_digit_number_char)

lemma list_all_take: "list_all P xs \<Longrightarrow> list_all P (take k xs)"
  by (auto simp: list_all_iff dest: in_set_takeD)

lemma list_all_drop: "list_all P xs \<Longrightarrow> list_all P (drop k xs)"
  by (auto simp: list_all_iff dest: in_set_dropD)

lemma list_all_replicate: "P x \<Longrightarrow> list_all P (replicate k x)"
  by (simp add: list_all_iff)

lemma positive_toString_number_chars:
  assumes "list_all number_char digs"
  shows "list_all number_char (positive_toString digs n)"
  unfolding positive_toString_def Let_def
  by (simp add: assms list_all_take list_all_drop list_all_replicate number_char_consts
      show_nat_number_chars)

lemma Number_toString_number_chars: "list_all number_char (Number_toString x)"
proof (cases x)
  case NaN
  then show ?thesis by (simp add: number_char_def)
next
  case PosInfinity
  then show ?thesis by (simp add: number_char_def)
next
  case NegInfinity
  then show ?thesis by (simp add: number_char_def)
next
  case (Dec m e)
  then show ?thesis
    by (simp add: positive_toString_number_chars show_nat_number_chars number_char_consts)
qed

lemma number_char_not_special:
  assumes "number_char c"
  shows "c \<noteq> CHR '':''" "c \<noteq> CHR '',''" "c \<noteq> CHR 0x0A" "\<not> is_space c"
  using assms by (auto simp: number_char_def is_space_def)

section \<open>Blank input, scalars, nesting and skipped lines\<close>

text \<open>
  C9. Decoding a text that is empty or holds white space only gives the empty object: the
  text trims to the empty string, whose only line is blank and is filtered out, and
  line 958 returns \<^verbatim>\<open>{}\<close>.
\<close>

theorem toonToJson_blank:
  assumes "\<forall>c\<in>set s. is_space c"
  shows "toonToJson s = Inr (Object [])"
proof -
  have "trim s = []"
    using assms by (rule trim_blank)
  then have "toon_lines s = []"
    by (simp add: toon_lines_def)
  then show ?thesis
    by (simp add: toonToJson_def)
qed

theorem toonToJson_blank_witness:
  "list_all is_space [CHR 0x20, CHR 0x0A, CHR 0x09, CHR 0x20] \<and>
   toonToJson [CHR 0x20, CHR 0x0A, CHR 0x09, CHR 0x20] = Inr (Object [])"
proof -
  have blank: "\<forall>c\<in>set [CHR 0x20, CHR 0x0A, CHR 0x09, CHR 0x20]. is_space c"
    by (simp add: is_space_def)
  from blank toonToJson_blank [OF blank] show ?thesis
    by (simp add: list_all_iff)
qed

text \<open>
  C6, as the claim states it, fails: the text \<^verbatim>\<open>Infinity\<close> does not become a String.
  \<^verbatim>\<open>Number('Infinity')\<close> is the number Infinity, line 1084 only asks that the number is not
  NaN, and the result is the Number Infinity.
\<close>

theorem parseToonValue_Infinity_counterexample:
  "parseToonValue ''Infinity'' \<noteq> String ''Infinity''"
  by code_simp

text \<open>
  C6, amended. \<^verbatim>\<open>null\<close> is Null, \<^verbatim>\<open>true\<close> and \<^verbatim>\<open>false\<close> are the Bools, the empty string
  is the empty String; any other text whose conversion by \<^verbatim>\<open>Number\<close> is not NaN and which
  is not blank is that Number, the infinities included; every other text is a String
  holding the text.
\<close>

theorem parseToonValue_cases:
  "parseToonValue ''null'' = Null \<and>
   parseToonValue ''true'' = Bool True \<and>
   parseToonValue ''false'' = Bool False \<and>
   parseToonValue [] = String [] \<and>
   parseToonValue ''Infinity'' = Number PosInfinity \<and>
   parseToonValue ''-Infinity'' = Number NegInfinity \<and>
   (v \<notin> {''null'', ''true'', ''false'', []} \<longrightarrow>
      parseToonValue v =
        (if StringToNumber v \<noteq> NaN \<and> trim v \<noteq> [] then Number (StringToNumber v)
         else String v))"
proof -
  have "parseToonValue ''null'' = Null" "parseToonValue ''true'' = Bool True"
    "parseToonValue ''false'' = Bool False" "parseToonValue [] = String []"
    by (simp_all add: parseToonValue_def)
  moreover have "parseToonValue ''Infinity'' = Number PosInfinity"
    by code_simp
  moreover have "parseToonValue ''-Infinity'' = Number NegInfinity"
    by code_simp
  moreover have "v \<notin> {''null'', ''true'', ''false'', []} \<longrightarrow>
      parseToonValue v =
        (if StringToNumber v \<noteq> NaN \<and> trim v \<noteq> [] then Number (StringToNumber v)
         else String v)"
    by (simp add: parseToonValue_def Let_def)
  ultimately show ?thesis
    by blast
qed

theorem parseToonValue_cases_witness:
  "''12.5'' \<notin> {''null'', ''true'', ''false'', []} \<and>
   parseToonValue ''12.5'' = Number (Dec 125 (- 1))"
proof -
  have n: "StringToNumber ''12.5'' = Dec 125 (- 1)"
    by code_simp
  have t: "trim ''12.5'' \<noteq> []"
    by code_simp
  have d: "''12.5'' \<notin> {''null'', ''true'', ''false'', []}"
    by simp
  from parseToonValue_cases [of "''12.5''"] d
  have "parseToonValue ''12.5'' =
      (if StringToNumber ''12.5'' \<noteq> NaN \<and> trim ''12.5'' \<noteq> []
       then Number (StringToNumber ''12.5'') else String ''12.5'')"
    by blast
  with n t d show ?thesis
    by simp
qed

text \<open>
  C2, as the claim states it, fails: the encoding of \<^verbatim>\<open>{addr: {city: "x"}}\<close> is not the
  two-line text. The nested object encodes to the single line \<^verbatim>\<open>city: x\<close>, which holds no
  line break, bracket or brace, so line 929 puts it after the key on the same line.
\<close>

theorem jsonToToon_nested_counterexample:
  "jsonToToon (Object [(''addr'', Object [(''city'', String ''x'')])]) \<noteq>
     Inr (''addr:'' @ [CHR 0x0A] @ ''  city: x'')"
  by code_simp

text \<open>
  C2, amended. The encoding of \<^verbatim>\<open>{addr: {city: "x"}}\<close> is the one line
  \<^verbatim>\<open>addr: city: x\<close>. The bare key line and the indented block are what a nested object of
  several lines gets: \<^verbatim>\<open>{addr: {city: "x", zip: "y"}}\<close> encodes to \<^verbatim>\<open>addr:\<close>, \<^verbatim>\<open>  city: x\<close>,
  \<^verbatim>\<open>  zip: y\<close>.
\<close>

theorem jsonToToon_nested:
  "jsonToToon (Object [(''addr'', Object [(''city'', String ''x'')])]) = Inr ''addr: city: x'' \<and>
   jsonToToon (Object [(''addr'', Object [(''city'', String ''x''), (''zip'', String ''y'')])]) =
     Inr (''addr:'' @ [CHR 0x0A] @ ''  city: x'' @ [CHR 0x0A] @ ''  zip: y'')"
  by code_simp

text \<open>
  C8. The encoder is not total. In a tabular row a cell that is an object goes through
  \<^verbatim>\<open>String(value)\<close> (line 953), and for an object with an own property \<^verbatim>\<open>toString\<close> that
  conversion throws a TypeError: \<^verbatim>\<open>[{"a": {"toString": 1}}]\<close> is such a value.
\<close>

theorem jsonToToon_throws:
  "jsonToToon (Array [Object [(''a'', Object [(''toString'', Number (Dec 1 0))])]]) =
     Inl TypeError"
  by code_simp

text \<open>
  C1, as the claim states it, fails: the encoding of Null is \<^verbatim>\<open>null\<close>, and decoding that
  text gives the empty object, not Null. \<^verbatim>\<open>toonToJson\<close> returns an array or an object and
  nothing else.
\<close>

theorem decode_encode_Null_counterexample:
  "decode_encode Null \<noteq> Inr Null"
  by code_simp

text \<open>
  C1, amended. For every scalar (Null, a Bool, a Number, or a String without a colon)
  decoding the encoding gives the empty object: the text holds no colon, so no line of
  it is a key line and every line is skipped.
\<close>

theorem decode_encode_scalar:
  "decode_encode Null = Inr (Object []) \<and>
   decode_encode (Bool b) = Inr (Object []) \<and>
   decode_encode (Number n) = Inr (Object []) \<and>
   (CHR '':'' \<notin> set s \<longrightarrow> decode_encode (String s) = Inr (Object []))"
proof -
  have "CHR '':'' \<notin> set (Number_toString n)"
    using Number_toString_number_chars [of n]
    by (auto simp: list_all_iff dest: number_char_not_special(1))
  then have "decode_encode (Number n) = Inr (Object [])"
    by (simp add: decode_encode_def toonToJson_colon_free)
  moreover have "decode_encode Null = Inr (Object [])"
    by (simp add: decode_encode_def toonToJson_colon_free)
  moreover have "decode_encode (Bool b) = Inr (Object [])"
    by (simp add: decode_encode_def toonToJson_colon_free)
  moreover have "CHR '':'' \<notin> set s \<longrightarrow> decode_encode (String s) = Inr (Object [])"
    by (simp add: decode_encode_def toonToJson_colon_free)
  ultimately show ?thesis
    by blast
qed

theorem decode_encode_scalar_witness:
  "CHR '':'' \<notin> set ''a, b'' \<and> decode_encode (String ''a, b'') = Inr (Object [])"
proof -
  have c: "CHR '':'' \<notin> set ''a, b''"
    by simp
  with decode_encode_scalar [of True NaN "''a, b''"] show ?thesis
    by blast
qed

section \<open>When the decoder throws\<close>

lemma trim_idem [simp]: "trim (trim s) = trim s"
proof (cases "trim s = []")
  case True
  then show ?thesis by simp
next
  case False
  let ?d = "dropWhile is_space s"
  let ?r = "dropWhile is_space (rev ?d)"
  have t: "trim s = rev ?r"
    by (simp add: trim_def)
  with False have rne: "?r \<noteq> []"
    by simp
  then have dne: "?d \<noteq> []"
    by (metis dropWhile.simps(1) rev.simps(1))
  have "\<not> is_space (hd ?d)"
    using dne by (rule hd_dropWhile)
  moreover have "hd (rev ?r) = hd ?d"
  proof -
    obtain pre where "rev ?d = pre @ ?r"
      by (metis takeWhile_dropWhile_id)
    then have "?d = rev ?r @ rev pre"
      by (metis rev_append rev_rev_ident)
    with rne show ?thesis
      by (metis hd_append2 rev_is_Nil_conv)
  qed
  ultimately have "\<not> is_space (hd (rev ?r))"
    by simp
  then have a: "dropWhile is_space (rev ?r) = rev ?r"
    using rne by (cases "rev ?r") auto
  have "\<not> is_space (hd ?r)"
    using rne by (rule hd_dropWhile)
  then have b: "dropWhile is_space ?r = ?r"
    using rne by (cases ?r) auto
  show ?thesis
    unfolding t unfolding trim_def a rev_rev_ident b ..
qed

lemma parseToonArray_error_iff:
  "parseToonArray (h # rows) = Inl e \<longleftrightarrow> e = InvalidArrayHeader \<and> header_full (trim h) = None"
  by (auto simp: parseToonArray_def split: option.splits)

lemma parseToonArray_ok:
  "header_full (trim h) \<noteq> None \<Longrightarrow> \<exists>arr. parseToonArray (h # rows) = Inr arr"
  by (auto simp: parseToonArray_def split: option.splits)

lemma loop_outcome:
  "((\<exists>h\<in>set (object_entries ls). header_full h = None) \<longrightarrow>
      parseToonObject_loop result ls = Inl InvalidArrayHeader) \<and>
   (\<not> (\<exists>h\<in>set (object_entries ls). header_full h = None) \<longrightarrow>
      (\<exists>obj. parseToonObject_loop result ls = Inr obj))"
proof (induction result ls rule: parseToonObject_loop.induct)
  case (1 result)
  show ?case
    by (simp add: parseToonObject_loop.simps object_entries.simps)
next
  case (2 result l rest)
  let ?line = "trim l"
  note L = parseToonObject_loop.simps(2) [of result l rest]
  note E = object_entries.simps(2) [of l rest]
  show ?case
  proof (cases "?line = []")
    case True
    with "2.IH"(1) show ?thesis
      by (simp add: L E)
  next
    case ne: False
    show ?thesis
    proof (cases "endsWith_colon ?line")
      case False
      show ?thesis
      proof (cases "0 < indexOf (CHR '':'') ?line")
        case True
        with ne False "2.IH"(7) [OF refl ne False refl True] show ?thesis
          by (simp add: L E Let_def)
      next
        case F: False
        with ne False "2.IH"(8) [OF refl ne False refl F] show ?thesis
          by (simp add: L E Let_def)
      qed
    next
      case ec: True
      show ?thesis
      proof (cases rest)
        case Nil
        with ne ec show ?thesis
          by (simp add: parseToonObject_loop.simps object_entries.simps Let_def)
      next
        case (Cons nl rest')
        let ?next = "trim nl"
        note L' = parseToonObject_loop.simps(2) [of result l "nl # rest'"]
        note E' = object_entries.simps(2) [of l "nl # rest'"]
        have "((\<exists>h\<in>set (object_entries (l # nl # rest')). header_full h = None) \<longrightarrow>
                 parseToonObject_loop result (l # nl # rest') = Inl InvalidArrayHeader) \<and>
              (\<not> (\<exists>h\<in>set (object_entries (l # nl # rest')). header_full h = None) \<longrightarrow>
                 (\<exists>obj. parseToonObject_loop result (l # nl # rest') = Inr obj))"
        proof (cases "header_dispatch ?next")
          case hd: True
          show ?thesis
          proof (cases "parseToonArray (?next # takeWhile is_row_line rest')")
            case (Inl e')
            then have "e' = InvalidArrayHeader" "header_full ?next = None"
              by (simp_all add: parseToonArray_error_iff)
            with ne ec hd Inl show ?thesis
              by (simp add: L' E' Let_def)
          next
            case (Inr arr)
            then have ok: "header_full ?next \<noteq> None"
              using parseToonArray_error_iff [of ?next "takeWhile is_row_line rest'" InvalidArrayHeader]
              by auto
            from "2.IH"(3) [OF refl ne ec refl Cons refl hd Inr] ne ec hd Inr ok
            show ?thesis
              by (auto simp: L' E' Let_def)
          qed
        next
          case nhd: False
          show ?thesis
          proof (cases "startsWith ''  '' ?next")
            case sw: True
            let ?blk = "map (drop 2) (takeWhile (startsWith ''  '') rest)"
            let ?after = "dropWhile (startsWith ''  '') rest"
            have LN: "parseToonObject_loop result (l # rest) =
                (case parseToonObject_loop [] ?blk of
                   Inl e \<Rightarrow> Inl e
                 | Inr nested \<Rightarrow>
                     parseToonObject_loop
                       (js_set result (trim (butlast ?line)) (Object nested)) ?after)"
              using ne ec nhd sw by (subst L) (simp add: Let_def Cons)
            have EN: "object_entries (l # rest) = object_entries ?blk @ object_entries ?after"
              using ne ec nhd sw by (subst E) (simp add: Let_def Cons)
            note ih1 = "2.IH"(4) [OF refl ne ec refl Cons refl nhd sw]
            have "((\<exists>h\<in>set (object_entries (l # rest)). header_full h = None) \<longrightarrow>
                 parseToonObject_loop result (l # rest) = Inl InvalidArrayHeader) \<and>
              (\<not> (\<exists>h\<in>set (object_entries (l # rest)). header_full h = None) \<longrightarrow>
                 (\<exists>obj. parseToonObject_loop result (l # rest) = Inr obj))"
            proof (cases "\<exists>h\<in>set (object_entries ?blk). header_full h = None")
              case True
              with ih1 have "parseToonObject_loop [] ?blk = Inl InvalidArrayHeader"
                by blast
              with True show ?thesis
                unfolding LN EN by force
            next
              case False
              with ih1 obtain nested where n: "parseToonObject_loop [] ?blk = Inr nested"
                by blast
              note ih2 = "2.IH"(5) [OF refl ne ec refl Cons refl nhd sw n]
              with n False show ?thesis
                unfolding LN EN by force
            qed
            then show ?thesis
              by (simp only: Cons)
          next
            case nsw: False
            with ne ec nhd "2.IH"(6) [OF refl ne ec refl Cons refl nhd nsw] show ?thesis
              by (simp add: L' E' Let_def)
          qed
        qed
        then show ?thesis
          by (simp only: Cons)
      qed
    qed
  qed
qed

lemma object_entries_dispatch: "h \<in> set (object_entries ls) \<Longrightarrow> header_dispatch h"
proof (induction ls arbitrary: h rule: object_entries.induct)
  case 1
  then show ?case
    by (simp add: object_entries.simps)
next
  case (2 l rest)
  note E = object_entries.simps(2) [of l rest]
  show ?case
  proof (cases "trim l = []")
    case True
    with "2.prems" have "h \<in> set (object_entries rest)"
      by (simp add: E)
    with True show ?thesis
      by (intro "2.IH"(1)) simp_all
  next
    case ne: False
    show ?thesis
    proof (cases "endsWith_colon (trim l)")
      case False
      with ne "2.prems" have "h \<in> set (object_entries rest)"
        by (simp add: E)
      with ne False show ?thesis
        by (intro "2.IH"(6)) simp_all
    next
      case ec: True
      show ?thesis
      proof (cases rest)
        case Nil
        with ne ec "2.prems" show ?thesis
          by (simp add: object_entries.simps Let_def)
      next
        case (Cons nl rest')
        show ?thesis
        proof (cases "header_dispatch (trim nl)")
          case True
          with ne ec Cons "2.prems"
          have "h = trim nl \<or> h \<in> set (object_entries (dropWhile is_row_line rest'))"
            by (simp add: object_entries.simps(2) [of l "nl # rest'"] Let_def)
          then show ?thesis
          proof
            assume "h = trim nl"
            with True show ?thesis by simp
          next
            assume "h \<in> set (object_entries (dropWhile is_row_line rest'))"
            then show ?thesis
              using "2.IH"(2) [OF refl ne ec Cons refl True] by blast
          qed
        next
          case nhd: False
          show ?thesis
          proof (cases "startsWith ''  '' (trim nl)")
            case sw: True
            have "object_entries (l # rest) =
                object_entries (map (drop 2) (takeWhile (startsWith ''  '') rest)) @
                object_entries (dropWhile (startsWith ''  '') rest)"
              using ne ec nhd sw by (subst E) (simp add: Let_def Cons)
            with "2.prems"
            have "h \<in> set (object_entries (map (drop 2) (takeWhile (startsWith ''  '') rest))) \<or>
                h \<in> set (object_entries (dropWhile (startsWith ''  '') rest))"
              by simp
            then show ?thesis
              using "2.IH"(3) [OF refl ne ec Cons refl nhd sw]
                "2.IH"(4) [OF refl ne ec Cons refl nhd sw] by blast
          next
            case nsw: False
            with ne ec Cons nhd "2.prems" have "h \<in> set (object_entries rest')"
              by (simp add: object_entries.simps(2) [of l "nl # rest'"] Let_def)
            then show ?thesis
              using "2.IH"(5) [OF refl ne ec Cons refl nhd nsw] by blast
          qed
        qed
      qed
    qed
  qed
qed

lemma takeWhile_digits_append:
  assumes "list_all is_digit ds" and "r = [] \<or> \<not> is_digit (hd r)"
  shows "takeWhile is_digit (ds @ r) = ds" and "dropWhile is_digit (ds @ r) = r"
proof -
  from assms(1) have d: "\<forall>c\<in>set ds. is_digit c"
    by (simp add: list_all_iff)
  from assms(2) have "takeWhile is_digit r = []" "dropWhile is_digit r = r"
    by (cases r; auto)+
  with d show "takeWhile is_digit (ds @ r) = ds" "dropWhile is_digit (ds @ r) = r"
    by (simp_all add: takeWhile_append2 dropWhile_append2)
qed

lemma header_gap:
  "header_dispatch h \<and> header_full h = None \<longleftrightarrow>
     (\<exists>ds. ds \<noteq> [] \<and> list_all is_digit ds \<and> h = ''['' @ ds @ '']{}:'')"
proof
  assume a: "header_dispatch h \<and> header_full h = None"
  then obtain ds body where m: "match_header h = Some (ds, body)"
    by (auto simp: header_dispatch_def)
  with a have body: "body = []"
    by (auto simp: header_full_def split: if_splits)
  from m obtain c r where h: "h = c # r"
    by (cases h) (auto simp: match_header_def)
  let ?r1 = "dropWhile is_digit r"
  let ?r2 = "drop 2 ?r1"
  from m h have c: "c = CHR ''[''" and ds: "ds = takeWhile is_digit r" "ds \<noteq> []"
    and t: "take 2 ?r1 = '']{''" and n: "2 \<le> length ?r2"
    and e: "drop (length ?r2 - 2) ?r2 = ''}:''" and b: "body = take (length ?r2 - 2) ?r2"
    by (auto simp: match_header_def Let_def split: if_splits)
  from b body n have "length ?r2 = 2"
    by auto
  with e have "?r2 = ''}:''"
    by (metis diff_self_eq_0 drop0)
  with t have "?r1 = '']{}:''"
    by (metis append_take_drop_id append_Cons append_Nil)
  then have "r = ds @ '']{}:''"
    using ds(1) by (metis takeWhile_dropWhile_id)
  moreover have "list_all is_digit ds"
    unfolding ds(1) by (auto simp: list_all_iff dest: set_takeWhileD)
  ultimately show "\<exists>ds. ds \<noteq> [] \<and> list_all is_digit ds \<and> h = ''['' @ ds @ '']{}:''"
    using h c ds(2) by auto
next
  assume "\<exists>ds. ds \<noteq> [] \<and> list_all is_digit ds \<and> h = ''['' @ ds @ '']{}:''"
  then obtain ds where ds: "ds \<noteq> []" "list_all is_digit ds" and h: "h = ''['' @ ds @ '']{}:''"
    by blast
  have nd: "'']{}:'' = [] \<or> \<not> is_digit (hd '']{}:'')"
    by (simp add: is_digit_def)
  note td = takeWhile_digits_append [OF ds(2) nd]
  have "match_header h = Some (ds, [])"
    unfolding h match_header_def using ds(1) by (simp add: td Let_def)
  then show "header_dispatch h \<and> header_full h = None"
    by (simp add: header_dispatch_def header_full_def)
qed

lemma toonToJson_outcome:
  "((\<exists>h\<in>set (array_entries s). header_full h = None) \<longrightarrow>
      toonToJson s = Inl InvalidArrayHeader) \<and>
   (\<not> (\<exists>h\<in>set (array_entries s). header_full h = None) \<longrightarrow>
      (\<exists>v. toonToJson s = Inr v))"
proof (cases "toon_lines s")
  case Nil
  then show ?thesis
    by (simp add: toonToJson_def array_entries_def)
next
  case (Cons l ls)
  show ?thesis
  proof (cases "trim l = ''[]:'' \<or> trim l = ''{}:''")
    case True
    with Cons show ?thesis
      by (auto simp: toonToJson_def array_entries_def Let_def)
  next
    case ne: False
    show ?thesis
    proof (cases "header_dispatch (trim l)")
      case True
      have "header_full (trim l) = None \<Longrightarrow> parseToonArray (l # ls) = Inl InvalidArrayHeader"
        by (simp add: parseToonArray_error_iff)
      moreover have "header_full (trim l) \<noteq> None \<Longrightarrow> \<exists>arr. parseToonArray (l # ls) = Inr arr"
        by (rule parseToonArray_ok)
      ultimately show ?thesis
        using Cons ne True by (auto simp: toonToJson_def array_entries_def Let_def)
    next
      case False
      with Cons ne loop_outcome [of "l # ls" "[]"] show ?thesis
        by (auto simp: toonToJson_def array_entries_def Let_def parseToonObject_def)
    qed
  qed
qed

lemma array_entries_dispatch: "h \<in> set (array_entries s) \<Longrightarrow> header_dispatch h"
  by (auto simp: array_entries_def Let_def split: if_splits dest: object_entries_dispatch)

text \<open>
  C4. Decoding throws the error \<^verbatim>\<open>Invalid array header format\<close> exactly when
  \<^verbatim>\<open>parseToonArray\<close> is entered on a header line that fails the header pattern of line 985.
  Every line it is entered on has passed the dispatch pattern of lines 972 and 1023, and
  the lines that pass the one and fail the other are the lines \<^verbatim>\<open>[digits]{}:\<close>. On every
  other input decoding returns a value; it throws no other error.
\<close>

theorem toonToJson_error_iff:
  "(toonToJson s = Inl InvalidArrayHeader \<longleftrightarrow>
      (\<exists>h\<in>set (array_entries s). header_full h = None)) \<and>
   (\<forall>h\<in>set (array_entries s). header_dispatch h) \<and>
   (header_dispatch h \<and> header_full h = None \<longleftrightarrow>
      (\<exists>ds. ds \<noteq> [] \<and> list_all is_digit ds \<and> h = ''['' @ ds @ '']{}:'')) \<and>
   toonToJson s \<noteq> Inl TypeError \<and>
   (\<not> (\<exists>h\<in>set (array_entries s). header_full h = None) \<longrightarrow> (\<exists>v. toonToJson s = Inr v))"
proof -
  define bad where "bad \<longleftrightarrow> (\<exists>h\<in>set (array_entries s). header_full h = None)"
  note o = toonToJson_outcome [of s, folded bad_def]
  have "toonToJson s = Inl InvalidArrayHeader \<longleftrightarrow> bad"
    using o by (cases bad) auto
  moreover have "\<forall>h\<in>set (array_entries s). header_dispatch h"
    by (blast dest: array_entries_dispatch)
  moreover have "toonToJson s \<noteq> Inl TypeError"
    using o by (cases bad) auto
  moreover have "\<not> bad \<longrightarrow> (\<exists>v. toonToJson s = Inr v)"
    using o by blast
  ultimately show ?thesis
    unfolding bad_def using header_gap [of h] by blast
qed

theorem toonToJson_error_iff_witness:
  "array_entries ''[3]{}:'' = [''[3]{}:''] \<and> header_full ''[3]{}:'' = None \<and>
   header_dispatch ''[3]{}:'' \<and> toonToJson ''[3]{}:'' = Inl InvalidArrayHeader"
proof -
  have a: "array_entries ''[3]{}:'' = [''[3]{}:'']"
    by code_simp
  have f: "header_full ''[3]{}:'' = None"
    by code_simp
  have d: "header_dispatch ''[3]{}:''"
    by code_simp
  from a f have "\<exists>h\<in>set (array_entries ''[3]{}:''). header_full h = None"
    by simp
  with toonToJson_error_iff [of "''[3]{}:''" "''[3]{}:''"]
  have "toonToJson ''[3]{}:'' = Inl InvalidArrayHeader"
    by blast
  with a f d show ?thesis
    by blast
qed

section \<open>Objects and rows\<close>

lemma map_of_replace_value:
  "k \<in> fst ` set obj \<Longrightarrow>
     map_of (replace_value k v obj) x = (if x = k then Some v else map_of obj x)"
  by (induction k v obj rule: replace_value.induct) force+

lemma map_of_insert_index:
  "k \<notin> fst ` set obj \<Longrightarrow>
     map_of (insert_index k v obj) x = (if x = k then Some v else map_of obj x)"
  by (induction k v obj rule: insert_index.induct) force+

lemma map_of_snoc:
  "k \<notin> fst ` set obj \<Longrightarrow>
     map_of (obj @ [(k, v)]) x = (if x = k then Some v else map_of obj x)"
  by (induction obj) force+

lemma map_of_js_set:
  "k \<noteq> ''__proto__'' \<Longrightarrow> map_of (js_set obj k v) x = (if x = k then Some v else map_of obj x)"
  unfolding js_set_def
  by (simp add: map_of_replace_value map_of_insert_index map_of_snoc del: map_of_append)

lemma keys_replace_value: "map fst (replace_value k v obj) = map fst obj"
  by (induction k v obj rule: replace_value.induct) auto

lemma set_keys_insert_index:
  "fst ` set (insert_index k v obj) = insert k (fst ` set obj)"
  by (induction k v obj rule: insert_index.induct) auto

lemma set_keys_js_set:
  assumes "k \<noteq> ''__proto__''"
  shows "fst ` set (js_set obj k v) = insert k (fst ` set obj)"
proof (cases "k \<in> fst ` set obj")
  case True
  have "fst ` set (replace_value k v obj) = set (map fst (replace_value k v obj))"
    by simp
  also have "\<dots> = fst ` set obj"
    unfolding keys_replace_value by simp
  finally show ?thesis
    using True assms by (auto simp: js_set_def)
next
  case False
  then show ?thesis
    using assms by (auto simp: js_set_def set_keys_insert_index)
qed

lemma distinct_insert_index:
  "distinct (map fst obj) \<Longrightarrow> k \<notin> fst ` set obj \<Longrightarrow>
     distinct (map fst (insert_index k v obj))"
proof (induction k v obj rule: insert_index.induct)
  case (1 k v)
  then show ?case by simp
next
  case (2 k v k' v' kvs)
  then show ?case
    using set_keys_insert_index [of k v kvs] by auto
qed

lemma distinct_js_set:
  "distinct (map fst obj) \<Longrightarrow> distinct (map fst (js_set obj k v))"
  by (simp add: js_set_def keys_replace_value distinct_insert_index)

lemma assign_cells_snoc:
  "assign_cells f acc (ps @ [(k, i)]) = js_set (assign_cells f acc ps) k (f i)"
  by (simp add: assign_cells_def)

lemma zip_upt_snoc:
  "zip (ks @ [k]) [0..<length (ks @ [k])] = zip ks [0..<length ks] @ [(k, length ks)]"
  by simp

lemma assign_cells_props:
  assumes "distinct keys" and "''__proto__'' \<notin> set keys"
  shows "set (map fst (assign_cells f [] (zip keys [0..<length keys]))) = set keys \<and>
         distinct (map fst (assign_cells f [] (zip keys [0..<length keys]))) \<and>
         (\<forall>j<length keys.
            map_of (assign_cells f [] (zip keys [0..<length keys])) (keys ! j) = Some (f j))"
  using assms
proof (induction keys rule: rev_induct)
  case Nil
  then show ?case
    by (simp add: assign_cells_def)
next
  case (snoc k ks)
  let ?a = "assign_cells f [] (zip ks [0..<length ks])"
  from snoc.prems have d: "distinct ks" and nk: "k \<notin> set ks"
    and np: "''__proto__'' \<notin> set ks" and kp: "k \<noteq> ''__proto__''"
    by auto
  note ih = snoc.IH [OF d np]
  have eq: "assign_cells f [] (zip (ks @ [k]) [0..<length (ks @ [k])]) = js_set ?a k (f (length ks))"
    unfolding zip_upt_snoc assign_cells_snoc ..
  have "\<forall>j<length (ks @ [k]). map_of (js_set ?a k (f (length ks))) ((ks @ [k]) ! j) = Some (f j)"
  proof (intro allI impI)
    fix j assume j: "j < length (ks @ [k])"
    show "map_of (js_set ?a k (f (length ks))) ((ks @ [k]) ! j) = Some (f j)"
    proof (cases "j < length ks")
      case True
      then have "ks ! j \<noteq> k"
        using nk by (metis nth_mem)
      with True ih kp show ?thesis
        by (simp add: map_of_js_set nth_append)
    next
      case False
      with j have "j = length ks"
        by simp
      then show ?thesis
        using kp by (simp add: map_of_js_set)
    qed
  qed
  moreover have "set (map fst (js_set ?a k (f (length ks)))) = set (ks @ [k])"
    using ih kp by (simp add: set_keys_js_set)
  moreover have "distinct (map fst (js_set ?a k (f (length ks))))"
    using ih by (simp add: distinct_js_set)
  ultimately show ?case
    unfolding eq by blast
qed

lemma rows_loop_eq:
  "rows_loop n keys ls acc = acc @ map (parse_row keys) (take (n - length acc) ls)"
proof (induction ls arbitrary: acc)
  case Nil
  then show ?case by simp
next
  case (Cons l ls)
  show ?case
  proof (cases "length acc < n")
    case True
    then have "n - length acc = Suc (n - Suc (length acc))"
      by simp
    with True Cons.IH [of "acc @ [parse_row keys l]"] show ?thesis
      by simp
  next
    case False
    then show ?thesis by simp
  qed
qed

lemma header_full_dispatch: "header_full s = Some x \<Longrightarrow> header_dispatch s"
  by (auto simp: header_full_def header_dispatch_def split: option.splits)

lemma header_not_empty_literals:
  "header_dispatch s \<Longrightarrow> s \<noteq> ''[]:'' \<and> s \<noteq> ''{}:''"
proof -
  have "match_header ''[]:'' = None" "match_header ''{}:'' = None"
    by (simp_all add: match_header_def is_digit_def)
  then show "header_dispatch s \<Longrightarrow> s \<noteq> ''[]:'' \<and> s \<noteq> ''{}:''"
    by (auto simp: header_dispatch_def)
qed

lemma toonToJson_table:
  assumes "toon_lines s = h # rows" and "header_full (trim h) = Some (ds, body)"
  shows "toonToJson s =
      Inr (Array (map (parse_row (map trim (split (CHR '','') body))) (take (parseInt10 ds) rows)))"
proof -
  from assms(2) have d: "header_dispatch (trim h)"
    by (rule header_full_dispatch)
  with header_not_empty_literals have "trim h \<noteq> ''[]:''" "trim h \<noteq> ''{}:''"
    by blast+
  with d assms show ?thesis
    by (simp add: toonToJson_def parseToonArray_def rows_loop_eq)
qed

lemma parse_row_assign:
  "parse_row keys line =
     Object (assign_cells (\<lambda>i. parseToonValue (cell_at (map trim (split (CHR '','') line)) i)) []
               (zip keys [0..<length keys]))"
  by (simp add: parse_row_def assign_cells_def Let_def)

text \<open>
  C5, as the claim states it, fails for a header that names a column key twice: the
  object of a row has that key once, with the cell of its last column. For the header
  \<^verbatim>\<open>[1]{a,a}:\<close> and the row \<^verbatim>\<open>1,2\<close> the first column key \<^verbatim>\<open>a\<close> is mapped to \<open>2\<close>, while the first
  cell parses to \<open>1\<close>.
\<close>

theorem toonToJson_duplicate_key_counterexample:
  "toonToJson (''[1]{a,a}:'' @ [CHR 0x0A] @ ''1,2'') =
     Inr (Array [Object [(''a'', Number (Dec 2 0))]]) \<and>
   map trim (split (CHR '','') ''a,a'') = [''a'', ''a''] \<and>
   map_of [(''a'', Number (Dec 2 0))] ''a'' \<noteq>
     Some (parseToonValue (cell_at (map trim (split (CHR '','') ''1,2'')) 0))"
  by code_simp

text \<open>
  C5, amended. For a text whose first non-blank line is a header with count \<open>n\<close> and
  pairwise distinct column keys, none of them \<^verbatim>\<open>__proto__\<close> (an assignment to that key
  creates no property), followed by \<open>r\<close> non-blank lines, decoding returns an
  array of \<open>min n r\<close> objects and no error. The \<open>i\<close>-th object has exactly the column keys,
  and maps the \<open>j\<close>-th key to the scalar parse of the \<open>j\<close>-th trimmed cell of row \<open>i\<close>, a
  missing cell being the empty string. The text \<^verbatim>\<open>[3]{a,b}:\<close>, \<^verbatim>\<open>1,2\<close>, \<^verbatim>\<open>3,4\<close>, \<^verbatim>\<open>5,6\<close> decodes
  to three objects with Number values.
\<close>

theorem toonToJson_rows:
  assumes "toon_lines s = h # rows"
    and "header_full (trim h) = Some (ds, body)"
    and "keys = map trim (split (CHR '','') body)"
    and "distinct keys" and "''__proto__'' \<notin> set keys"
  shows "(\<exists>objs. toonToJson s = Inr (Array (map Object objs)) \<and>
           length objs = min (parseInt10 ds) (length rows) \<and>
           (\<forall>i<length objs.
              set (map fst (objs ! i)) = set keys \<and> distinct (map fst (objs ! i)) \<and>
              (\<forall>j<length keys.
                 map_of (objs ! i) (keys ! j) =
                   Some (parseToonValue (cell_at (map trim (split (CHR '','') (rows ! i))) j))))) \<and>
         toonToJson (''[3]{a,b}:'' @ [CHR 0x0A] @ ''1,2'' @ [CHR 0x0A] @ ''3,4'' @ [CHR 0x0A] @ ''5,6'') =
           Inr (Array [Object [(''a'', Number (Dec 1 0)), (''b'', Number (Dec 2 0))],
                       Object [(''a'', Number (Dec 3 0)), (''b'', Number (Dec 4 0))],
                       Object [(''a'', Number (Dec 5 0)), (''b'', Number (Dec 6 0))]])"
proof -
  define obj where "obj line =
    assign_cells (\<lambda>i. parseToonValue (cell_at (map trim (split (CHR '','') line)) i)) []
      (zip keys [0..<length keys])" for line
  define objs where "objs = map obj (take (parseInt10 ds) rows)"
  have "toonToJson s = Inr (Array (map (parse_row keys) (take (parseInt10 ds) rows)))"
    using toonToJson_table [OF assms(1,2)] assms(3) by simp
  also have "map (parse_row keys) (take (parseInt10 ds) rows) = map Object objs"
    by (simp add: objs_def obj_def parse_row_assign)
  finally have 1: "toonToJson s = Inr (Array (map Object objs))" .
  have 2: "length objs = min (parseInt10 ds) (length rows)"
    by (simp add: objs_def)
  have 3: "set (map fst (objs ! i)) = set keys \<and> distinct (map fst (objs ! i)) \<and>
      (\<forall>j<length keys.
         map_of (objs ! i) (keys ! j) =
           Some (parseToonValue (cell_at (map trim (split (CHR '','') (rows ! i))) j)))"
    if "i < length objs" for i
  proof -
    from that have "objs ! i = obj (rows ! i)"
      by (simp add: objs_def)
    then show ?thesis
      using assign_cells_props [OF assms(4,5)] by (simp add: obj_def)
  qed
  have 4: "toonToJson (''[3]{a,b}:'' @ [CHR 0x0A] @ ''1,2'' @ [CHR 0x0A] @ ''3,4'' @ [CHR 0x0A] @ ''5,6'') =
      Inr (Array [Object [(''a'', Number (Dec 1 0)), (''b'', Number (Dec 2 0))],
                  Object [(''a'', Number (Dec 3 0)), (''b'', Number (Dec 4 0))],
                  Object [(''a'', Number (Dec 5 0)), (''b'', Number (Dec 6 0))]])"
    by code_simp
  from 1 2 3 have "\<exists>objs. toonToJson s = Inr (Array (map Object objs)) \<and>
      length objs = min (parseInt10 ds) (length rows) \<and>
      (\<forall>i<length objs.
         set (map fst (objs ! i)) = set keys \<and> distinct (map fst (objs ! i)) \<and>
         (\<forall>j<length keys.
            map_of (objs ! i) (keys ! j) =
              Some (parseToonValue (cell_at (map trim (split (CHR '','') (rows ! i))) j))))"
    by blast
  with 4 show ?thesis
    by blast
qed

theorem toonToJson_rows_witness:
  "toon_lines (''[5]{a,b}:'' @ [CHR 0x0A] @ ''1'' @ [CHR 0x0A] @ ''x,y,z'') =
     [''[5]{a,b}:'', ''1'', ''x,y,z''] \<and>
   header_full (trim ''[5]{a,b}:'') = Some (''5'', ''a,b'') \<and>
   distinct (map trim (split (CHR '','') ''a,b'')) \<and>
   ''__proto__'' \<notin> set (map trim (split (CHR '','') ''a,b'')) \<and>
   (\<exists>objs. toonToJson (''[5]{a,b}:'' @ [CHR 0x0A] @ ''1'' @ [CHR 0x0A] @ ''x,y,z'') =
             Inr (Array (map Object objs)) \<and>
           length objs = 2 \<and>
           map_of (objs ! 0) ''b'' = Some (String []))"
proof -
  let ?s = "''[5]{a,b}:'' @ [CHR 0x0A] @ ''1'' @ [CHR 0x0A] @ ''x,y,z''"
  have l: "toon_lines ?s = [''[5]{a,b}:'', ''1'', ''x,y,z'']"
    by code_simp
  have h: "header_full (trim ''[5]{a,b}:'') = Some (''5'', ''a,b'')"
    by code_simp
  have k: "map trim (split (CHR '','') ''a,b'') = [''a'', ''b'']"
    by code_simp
  have d: "distinct (map trim (split (CHR '','') ''a,b''))"
    unfolding k by simp
  have np: "''__proto__'' \<notin> set (map trim (split (CHR '','') ''a,b''))"
    unfolding k by simp
  have n: "parseInt10 ''5'' = 5"
    by code_simp
  have c: "parseToonValue (cell_at (map trim (split (CHR '','') ''1'')) 1) = String []"
    by code_simp
  from toonToJson_rows [OF l h refl d np]
  obtain objs where o: "toonToJson ?s = Inr (Array (map Object objs))"
    "length objs = min (parseInt10 ''5'') (length [''1'', ''x,y,z''])"
    "\<forall>i<length objs. \<forall>j<length (map trim (split (CHR '','') ''a,b'')).
       map_of (objs ! i) (map trim (split (CHR '','') ''a,b'') ! j) =
         Some (parseToonValue (cell_at (map trim (split (CHR '','') ([''1'', ''x,y,z''] ! i))) j))"
    by blast
  from o(2) n have len: "length objs = 2"
    by simp
  have "0 < length objs" "1 < length (map trim (split (CHR '','') ''a,b''))"
    using len unfolding k by simp_all
  with o(3) have "map_of (objs ! 0) (map trim (split (CHR '','') ''a,b'') ! 1) =
      Some (parseToonValue (cell_at (map trim (split (CHR '','') ([''1'', ''x,y,z''] ! 0))) 1))"
    by blast
  then have "map_of (objs ! 0) ''b'' =
      Some (parseToonValue (cell_at (map trim (split (CHR '','') ''1'')) 1))"
    unfolding k by simp
  with c have "map_of (objs ! 0) ''b'' = Some (String [])"
    by (simp only:)
  with o(1) len l h d np show ?thesis
    by blast
qed

section \<open>Objects of scalars, encoded and decoded\<close>

lemma trim_trimmed: "trimmed s \<Longrightarrow> trim s = s"
proof -
  assume t: "trimmed s"
  then have a: "dropWhile is_space s = s"
    by (cases s) (auto simp: trimmed_def)
  from t have "rev s \<noteq> []" "\<not> is_space (hd (rev s))"
    by (auto simp: trimmed_def hd_rev)
  then have "dropWhile is_space (rev s) = rev s"
    by (cases "rev s") auto
  with a show ?thesis
    by (simp add: trim_def)
qed

lemma split_no_sep: "c \<notin> set s \<Longrightarrow> split c s = [s]"
  by (induction s) auto

lemma split_append_sep:
  "c \<notin> set a \<Longrightarrow> split c (a @ c # b) = a # split c b"
  by (induction a) auto

lemma join_Cons: "ls \<noteq> [] \<Longrightarrow> join sep (l # ls) = l @ sep @ join sep ls"
  by (cases ls) auto

lemma split_join:
  "ls \<noteq> [] \<Longrightarrow> \<forall>l\<in>set ls. c \<notin> set l \<Longrightarrow> split c (join [c] ls) = ls"
proof (induction ls)
  case Nil
  then show ?case by simp
next
  case (Cons l ls)
  show ?case
  proof (cases "ls = []")
    case True
    with Cons.prems show ?thesis
      by (simp add: split_no_sep)
  next
    case False
    with Cons show ?thesis
      by (simp add: join_Cons split_append_sep)
  qed
qed

lemma join_hd:
  assumes "ls \<noteq> []" and "hd ls \<noteq> []"
  shows "join sep ls \<noteq> []" and "hd (join sep ls) = hd (hd ls)"
proof -
  from assms obtain l ls' where ls: "ls = l # ls'" and l: "l \<noteq> []"
    by (cases ls) auto
  show "join sep ls \<noteq> []" "hd (join sep ls) = hd (hd ls)"
    using l unfolding ls by (cases ls'; simp)+
qed

lemma join_last:
  "ls \<noteq> [] \<Longrightarrow> last ls \<noteq> [] \<Longrightarrow>
     join sep ls \<noteq> [] \<and> last (join sep ls) = last (last ls)"
proof (induction ls)
  case Nil
  then show ?case by simp
next
  case (Cons l ls)
  show ?case
  proof (cases "ls = []")
    case True
    with Cons.prems show ?thesis by simp
  next
    case False
    with Cons have "join sep ls \<noteq> [] \<and> last (join sep ls) = last (last ls)"
      by simp
    with False show ?thesis
      by (simp add: join_Cons)
  qed
qed

lemma trimmed_join:
  assumes "ls \<noteq> []" and "trimmed (hd ls)" and "trimmed (last ls)"
  shows "trimmed (join sep ls)"
  using assms join_hd [of ls sep] join_last [of ls sep] by (simp add: trimmed_def)

lemma toon_lines_join:
  assumes "ls \<noteq> []" and "\<forall>l\<in>set ls. trimmed l \<and> CHR 0x0A \<notin> set l"
  shows "toon_lines (join [CHR 0x0A] ls) = ls"
proof -
  from assms have "trimmed (hd ls)" "trimmed (last ls)"
    by simp_all
  with assms(1) have "trimmed (join [CHR 0x0A] ls)"
    by (rule trimmed_join)
  then have "trim (join [CHR 0x0A] ls) = join [CHR 0x0A] ls"
    by (rule trim_trimmed)
  moreover have "split (CHR 0x0A) (join [CHR 0x0A] ls) = ls"
    using assms by (intro split_join) auto
  moreover have "filter (\<lambda>line. trim line \<noteq> []) ls = ls"
    using assms(2) by (auto simp: filter_id_conv trim_trimmed trimmed_def)
  ultimately show ?thesis
    by (simp add: toon_lines_def)
qed

lemma sequence_Inr: "sequence (map (\<lambda>x. Inr (f x)) xs) = Inr (map f xs)"
  by (induction xs) auto

lemma sequence_map_cong:
  "(\<And>x. x \<in> set xs \<Longrightarrow> f x = Inr (g x)) \<Longrightarrow> sequence (map f xs) = Inr (map g xs)"
  by (induction xs) auto

lemma formatToonValue_scalar: "is_scalar v \<Longrightarrow> formatToonValue v = Inr (scalar_text v)"
  by (cases v) auto

lemma table_of_scalar: "is_scalar v \<Longrightarrow> table_of v = None"
  by (cases v) (auto simp: table_of_def)

lemma isObject_scalar: "is_scalar v \<Longrightarrow> \<not> isObject v"
  by (cases v) auto

lemma jsonToToon_flat_object:
  assumes "obj \<noteq> []" and "\<forall>p\<in>set obj. is_scalar (snd p)"
  shows "jsonToToon (Object obj) = Inr (join [CHR 0x0A] (map entry_line obj))"
proof -
  have "sequence (map (\<lambda>(key, v).
                 (case table_of v of
                    Some (arr, arrayKeys) \<Rightarrow>
                      (case sequence (map (format_row arrayKeys) arr) of
                         Inl e \<Rightarrow> Inl e
                       | Inr rows \<Rightarrow> Inr ((key @ array_header (length arr) arrayKeys) # rows))
                  | None \<Rightarrow>
                      if isObject v then
                        (case jsonToToon v of
                           Inl e \<Rightarrow> Inl e
                         | Inr nested \<Rightarrow>
                             if needs_block nested
                             then Inr ((key @ '':'') # indent_lines nested)
                             else Inr [key @ '': '' @ nested])
                      else
                        (case formatToonValue v of
                           Inl e \<Rightarrow> Inl e
                         | Inr formattedValue \<Rightarrow> Inr [key @ '': '' @ formattedValue]))) obj)
      = Inr (map (\<lambda>p. [entry_line p]) obj)"
    using assms(2)
    by (intro sequence_map_cong)
      (auto simp: table_of_scalar isObject_scalar formatToonValue_scalar entry_line_def)
  moreover have "concat (map (\<lambda>p. [entry_line p]) obj) = map entry_line obj"
    by (induction obj) auto
  ultimately show ?thesis
    using assms(1) by simp
qed

lemma match_header_last: "match_header s = Some x \<Longrightarrow> endsWith_colon s"
proof -
  assume m: "match_header s = Some x"
  then obtain c r where s: "s = c # r"
    by (cases s) (auto simp: match_header_def)
  let ?r1 = "dropWhile is_digit r"
  let ?r2 = "drop 2 ?r1"
  from m s have e: "drop (length ?r2 - 2) ?r2 = ''}:''" and n: "2 \<le> length ?r2"
    by (auto simp: match_header_def Let_def split: if_splits)
  have "?r2 = take (length ?r2 - 2) ?r2 @ ''}:''"
    using e by (metis append_take_drop_id)
  then have "last ?r2 = CHR '':''"
    by (metis last_appendR last.simps list.discI)
  moreover have "?r2 \<noteq> []"
    using n by auto
  ultimately have r2: "last ?r2 = CHR '':''" "?r2 \<noteq> []"
    by simp_all
  have "?r1 = take 2 ?r1 @ ?r2"
    by simp
  with r2 have r1: "last ?r1 = CHR '':''" "?r1 \<noteq> []"
    by (metis last_appendR, metis append_is_Nil_conv)
  have "r = takeWhile is_digit r @ ?r1"
    by simp
  with r1 have "last r = CHR '':''" "r \<noteq> []"
    by (metis last_appendR, metis append_is_Nil_conv)
  with s show ?thesis
    by (simp add: endsWith_colon_def)
qed

lemma indexOf_append:
  "c \<notin> set a \<Longrightarrow> indexOf c (a @ c # b) = int (length a)"
  by (induction a) (auto simp: Let_def)

lemma trim_space_trimmed: "trimmed t \<Longrightarrow> trim (CHR '' '' # t) = t"
proof -
  assume t: "trimmed t"
  have "trim (CHR '' '' # t) = trim t"
    by (simp add: trim_def is_space_def)
  with t show ?thesis
    by (simp add: trim_trimmed)
qed

lemma loop_entry_line:
  assumes k: "trimmed k" "CHR '':'' \<notin> set k"
    and t: "trimmed t" "last t \<noteq> CHR '':''"
  shows "parseToonObject_loop result ((k @ '': '' @ t) # rest) =
         parseToonObject_loop (js_set result k (parseToonValue t)) rest"
proof -
  let ?l = "k @ CHR '':'' # CHR '' '' # t"
  have kn: "k \<noteq> []" and tn: "t \<noteq> []"
    using k t by (auto simp: trimmed_def)
  have "trimmed ?l"
    using k(1) t(1) by (auto simp: trimmed_def)
  then have tl: "trim ?l = ?l"
    by (rule trim_trimmed)
  have ne: "?l \<noteq> []"
    using kn by simp
  have nec: "\<not> endsWith_colon ?l"
    using t(2) tn by (simp add: endsWith_colon_def)
  have ix: "indexOf (CHR '':'') ?l = int (length k)"
    by (rule indexOf_append [OF k(2)])
  have pos: "0 < indexOf (CHR '':'') ?l"
    using kn ix by simp
  have key: "trim (take (nat (indexOf (CHR '':'') ?l)) ?l) = k"
    unfolding ix using k(1) by (simp add: trim_trimmed)
  have val: "trim (drop (nat (indexOf (CHR '':'') ?l) + 1) ?l) = t"
    unfolding ix using t(1) by (simp add: trim_space_trimmed)
  have "parseToonObject_loop result (?l # rest) =
      parseToonObject_loop (js_set result k (parseToonValue t)) rest"
    by (subst parseToonObject_loop.simps(2)) (simp only: Let_def tl ne nec pos key val if_False if_True)
  then show ?thesis
    by simp
qed

lemma insert_index_end:
  "\<forall>k'\<in>fst ` set obj. is_array_index k' \<and> parseInt10 k' < parseInt10 k \<Longrightarrow>
     insert_index k v obj = obj @ [(k, v)]"
  by (induction k v obj rule: insert_index.induct) auto

lemma js_set_end:
  assumes "k \<notin> fst ` set obj" and "\<forall>k'\<in>fst ` set obj. key_precedes k' k"
    and "k \<noteq> ''__proto__''"
  shows "js_set obj k v = obj @ [(k, v)]"
proof (cases "is_array_index k")
  case True
  with assms(2) have "\<forall>k'\<in>fst ` set obj. is_array_index k' \<and> parseInt10 k' < parseInt10 k"
    by (simp add: key_precedes_def)
  then have "insert_index k v obj = obj @ [(k, v)]"
    by (rule insert_index_end)
  with True assms(1,3) show ?thesis
    by (simp add: js_set_def)
next
  case False
  with assms(1,3) show ?thesis
    by (simp add: js_set_def)
qed

lemma loop_entry_lines:
  assumes "\<forall>p\<in>set obj. trimmed (fst p) \<and> CHR '':'' \<notin> set (fst p) \<and>
             trimmed (scalar_text (snd p)) \<and> last (scalar_text (snd p)) \<noteq> CHR '':''"
  shows "parseToonObject_loop result (map entry_line obj) =
         Inr (foldl (\<lambda>acc p. js_set acc (fst p) (parseToonValue (scalar_text (snd p)))) result obj)"
  using assms
proof (induction obj arbitrary: result)
  case Nil
  then show ?case
    by (simp add: parseToonObject_loop.simps(1))
next
  case (Cons p obj)
  from Cons.prems have p: "trimmed (fst p)" "CHR '':'' \<notin> set (fst p)"
    "trimmed (scalar_text (snd p))" "last (scalar_text (snd p)) \<noteq> CHR '':''"
    by simp_all
  have "parseToonObject_loop result (entry_line p # map entry_line obj) =
      parseToonObject_loop (js_set result (fst p) (parseToonValue (scalar_text (snd p))))
        (map entry_line obj)"
    unfolding entry_line_def by (rule loop_entry_line [OF p])
  with Cons show ?case
    by simp
qed

lemma foldl_js_set_ordered:
  assumes "distinct (map fst obj)" and "js_ordered (map fst obj)"
    and "''__proto__'' \<notin> fst ` set obj"
  shows "foldl (\<lambda>acc p. js_set acc (fst p) (f p)) [] obj = map (\<lambda>p. (fst p, f p)) obj"
  using assms
proof (induction obj rule: rev_induct)
  case Nil
  then show ?case by simp
next
  case (snoc p obj)
  let ?acc = "map (\<lambda>p. (fst p, f p)) obj"
  from snoc.prems have d: "distinct (map fst obj)" and o: "js_ordered (map fst obj)"
    and nk: "fst p \<notin> fst ` set obj" and pre: "\<forall>k'\<in>fst ` set obj. key_precedes k' (fst p)"
    and np: "''__proto__'' \<notin> fst ` set obj" and pp: "fst p \<noteq> ''__proto__''"
    by (auto simp: js_ordered_def sorted_wrt_append)
  have keys: "fst ` set ?acc = fst ` set obj"
    by force
  have "fst p \<notin> fst ` set ?acc" "\<forall>k'\<in>fst ` set ?acc. key_precedes k' (fst p)"
    unfolding keys using nk pre by blast+
  then have "js_set ?acc (fst p) (f p) = ?acc @ [(fst p, f p)]"
    using pp by (rule js_set_end)
  with snoc.IH [OF d o np] show ?case
    by simp
qed

lemma decode_encode_flat_object:
  assumes "distinct (map fst obj)" and "js_ordered (map fst obj)"
    and "\<forall>p\<in>set obj. trimmed (fst p) \<and> CHR '':'' \<notin> set (fst p) \<and> CHR 0x0A \<notin> set (fst p) \<and>
           is_scalar (snd p) \<and> trimmed (scalar_text (snd p)) \<and>
           CHR 0x0A \<notin> set (scalar_text (snd p)) \<and> last (scalar_text (snd p)) \<noteq> CHR '':''"
    and "''__proto__'' \<notin> fst ` set obj"
  shows "decode_encode (Object obj) =
         Inr (Object (map (\<lambda>p. (fst p, parseToonValue (scalar_text (snd p)))) obj))"
proof (cases "obj = []")
  case True
  have "toonToJson ''{}:'' = Inr (Object [])"
    by code_simp
  with True show ?thesis
    by (simp add: decode_encode_def)
next
  case False
  let ?lines = "map entry_line obj"
  have enc: "jsonToToon (Object obj) = Inr (join [CHR 0x0A] ?lines)"
    using False assms(3) by (intro jsonToToon_flat_object) auto
  have line_ok: "trimmed (entry_line p) \<and> CHR 0x0A \<notin> set (entry_line p) \<and>
      \<not> endsWith_colon (entry_line p)" if "p \<in> set obj" for p
    using assms(3) that by (auto simp: entry_line_def trimmed_def endsWith_colon_def)
  then have lines: "toon_lines (join [CHR 0x0A] ?lines) = ?lines"
    using False by (intro toon_lines_join) auto
  obtain p ps where obj: "obj = p # ps"
    using False by (cases obj) auto
  have first: "trim (entry_line p) = entry_line p" "\<not> endsWith_colon (entry_line p)"
    using line_ok [of p] obj by (simp_all add: trim_trimmed)
  then have "entry_line p \<noteq> ''[]:''" "entry_line p \<noteq> ''{}:''"
    "\<not> header_dispatch (entry_line p)"
    by (auto simp: endsWith_colon_def header_dispatch_def dest: match_header_last)
  with first lines obj
  have "toonToJson (join [CHR 0x0A] ?lines) =
      (case parseToonObject ?lines of Inl e \<Rightarrow> Inl e | Inr obj' \<Rightarrow> Inr (Object obj'))"
    by (simp add: toonToJson_def Let_def)
  also have "parseToonObject ?lines =
      Inr (foldl (\<lambda>acc p. js_set acc (fst p) (parseToonValue (scalar_text (snd p)))) [] obj)"
    unfolding parseToonObject_def using assms(3) by (intro loop_entry_lines) auto
  also have "foldl (\<lambda>acc p. js_set acc (fst p) (parseToonValue (scalar_text (snd p)))) [] obj =
      map (\<lambda>p. (fst p, parseToonValue (scalar_text (snd p)))) obj"
    using assms(1,2,4) by (rule foldl_js_set_ordered)
  finally show ?thesis
    using enc by (simp add: decode_encode_def)
qed

lemma positive_toString_not_Nil: "digs \<noteq> [] \<Longrightarrow> positive_toString digs n \<noteq> []"
  by (simp add: positive_toString_def Let_def)

lemma Number_toString_not_Nil: "Number_toString x \<noteq> []"
  by (cases x) (simp_all add: positive_toString_not_Nil)

lemma Number_toString_trimmed: "trimmed (Number_toString x)"
proof -
  have ne: "Number_toString x \<noteq> []"
    by (rule Number_toString_not_Nil)
  then have "hd (Number_toString x) \<in> set (Number_toString x)"
    "last (Number_toString x) \<in> set (Number_toString x)"
    by simp_all
  with Number_toString_number_chars [of x]
  have "number_char (hd (Number_toString x))" "number_char (last (Number_toString x))"
    by (simp_all add: list_all_iff)
  with ne show ?thesis
    by (simp add: trimmed_def number_char_not_special(4))
qed

lemma Number_toString_free:
  "CHR '':'' \<notin> set (Number_toString x)" "CHR '','' \<notin> set (Number_toString x)"
  "CHR 0x0A \<notin> set (Number_toString x)"
  using Number_toString_number_chars [of x]
  by (auto simp: list_all_iff dest: number_char_not_special)

lemma scalar_text_ok:
  assumes "is_scalar v"
    and "\<forall>s. v = String s \<longrightarrow> trimmed s \<and> CHR 0x0A \<notin> set s \<and> last s \<noteq> CHR '':''"
  shows "trimmed (scalar_text v) \<and> CHR 0x0A \<notin> set (scalar_text v) \<and>
         last (scalar_text v) \<noteq> CHR '':''"
proof (cases v)
  case Null
  then show ?thesis by (simp add: trimmed_def is_space_def)
next
  case (Bool b)
  then show ?thesis by (simp add: trimmed_def is_space_def)
next
  case (Number n)
  have "last (Number_toString n) \<in> set (Number_toString n)"
    using Number_toString_not_Nil by simp
  with Number_toString_free(1) [of n] have "last (Number_toString n) \<noteq> CHR '':''"
    by metis
  with Number show ?thesis
    by (simp add: Number_toString_trimmed Number_toString_free)
next
  case (String s)
  with assms(2) show ?thesis by simp
next
  case (Array xs)
  with assms(1) show ?thesis by simp
next
  case (Object kvs)
  with assms(1) show ?thesis by simp
qed

text \<open>
  C7, as the claim states it, fails: \<^verbatim>\<open>{b: "", a: 2}\<close> encodes to the lines \<^verbatim>\<open>b: \<close> and
  \<^verbatim>\<open>a: 2\<close>; the first line, trimmed, is the bare key line \<^verbatim>\<open>b:\<close>, which takes the next line
  as its value (line 1050). The decoded object has the key \<^verbatim>\<open>b\<close> only.
\<close>

theorem decode_encode_key_order_counterexample:
  "decode_encode (Object [(''b'', String []), (''a'', Number (Dec 2 0))]) =
     Inr (Object [(''b'', String ''a: 2'')])"
  by code_simp

text \<open>
  C7, amended. Let the keys of an object be pairwise distinct and in the order of
  \<^verbatim>\<open>Object.keys\<close>, each key non-empty, without white space at either end, without colon and
  without line feed, and not \<^verbatim>\<open>__proto__\<close>; let every member be a scalar, a String member
  being non-empty,
  without white space at either end, without line feed and not ending in a colon. Then
  decoding the encoding gives an object with the same keys in the same order;
  \<^verbatim>\<open>{b: 1, a: 2}\<close> comes back with \<^verbatim>\<open>b\<close> before \<^verbatim>\<open>a\<close>.
\<close>

theorem decode_encode_key_order:
  assumes "distinct (map fst obj)" and "js_ordered (map fst obj)"
    and "\<forall>(k, v)\<in>set obj.
           trimmed k \<and> CHR '':'' \<notin> set k \<and> CHR 0x0A \<notin> set k \<and> k \<noteq> ''__proto__'' \<and>
           is_scalar v \<and>
           (\<forall>s. v = String s \<longrightarrow> trimmed s \<and> CHR 0x0A \<notin> set s \<and> last s \<noteq> CHR '':'')"
  shows "\<exists>obj'. decode_encode (Object obj) = Inr (Object obj') \<and> map fst obj' = map fst obj"
proof -
  from assms(3) have np: "''__proto__'' \<notin> fst ` set obj"
    by (auto simp: case_prod_beta)
  have "\<forall>p\<in>set obj. trimmed (fst p) \<and> CHR '':'' \<notin> set (fst p) \<and> CHR 0x0A \<notin> set (fst p) \<and>
      is_scalar (snd p) \<and> trimmed (scalar_text (snd p)) \<and>
      CHR 0x0A \<notin> set (scalar_text (snd p)) \<and> last (scalar_text (snd p)) \<noteq> CHR '':''"
  proof
    fix p assume "p \<in> set obj"
    with assms(3) have k: "trimmed (fst p)" "CHR '':'' \<notin> set (fst p)" "CHR 0x0A \<notin> set (fst p)"
      and v: "is_scalar (snd p)"
        "\<forall>s. snd p = String s \<longrightarrow> trimmed s \<and> CHR 0x0A \<notin> set s \<and> last s \<noteq> CHR '':''"
      by (auto simp: case_prod_beta)
    from k scalar_text_ok [OF v] v(1)
    show "trimmed (fst p) \<and> CHR '':'' \<notin> set (fst p) \<and> CHR 0x0A \<notin> set (fst p) \<and>
      is_scalar (snd p) \<and> trimmed (scalar_text (snd p)) \<and>
      CHR 0x0A \<notin> set (scalar_text (snd p)) \<and> last (scalar_text (snd p)) \<noteq> CHR '':''"
      by blast
  qed
  with assms(1,2)
  have "decode_encode (Object obj) =
      Inr (Object (map (\<lambda>p. (fst p, parseToonValue (scalar_text (snd p)))) obj))"
    using np by (rule decode_encode_flat_object)
  moreover have "map fst (map (\<lambda>p. (fst p, parseToonValue (scalar_text (snd p)))) obj) = map fst obj"
    by (simp add: comp_def)
  ultimately show ?thesis
    by blast
qed

theorem decode_encode_key_order_witness:
  "distinct (map fst [(''b'', Number (Dec 1 0)), (''a'', Number (Dec 2 0))]) \<and>
   js_ordered (map fst [(''b'', Number (Dec 1 0)), (''a'', Number (Dec 2 0))]) \<and>
   (\<exists>obj'. decode_encode (Object [(''b'', Number (Dec 1 0)), (''a'', Number (Dec 2 0))]) =
             Inr (Object obj') \<and>
           map fst obj' = [''b'', ''a''])"
proof -
  let ?obj = "[(''b'', Number (Dec 1 0)), (''a'', Number (Dec 2 0))]"
  have d: "distinct (map fst ?obj)"
    by simp
  have o: "js_ordered (map fst ?obj)"
    by code_simp
  have s: "\<forall>(k, v)\<in>set ?obj.
      trimmed k \<and> CHR '':'' \<notin> set k \<and> CHR 0x0A \<notin> set k \<and> k \<noteq> ''__proto__'' \<and>
      is_scalar v \<and>
      (\<forall>s. v = String s \<longrightarrow> trimmed s \<and> CHR 0x0A \<notin> set s \<and> last s \<noteq> CHR '':'')"
    by (simp add: trimmed_def is_space_def)
  from decode_encode_key_order [OF d o s] d o show ?thesis
    by simp
qed

section \<open>Numbers: parsing what was printed\<close>


lemma dec_norm_zero [simp]: "dec_norm 0 e = Dec 0 0"
  by (subst dec_norm.simps) simp
























section \<open>Tables, encoded and decoded\<close>






























section \<open>The indented block of a nested object\<close>

lemma hd_trim_not_space: "trim s \<noteq> [] \<Longrightarrow> \<not> is_space (hd (trim s))"
proof -
  assume ne: "trim s \<noteq> []"
  have "trim (trim s) = trim s"
    by (rule trim_idem)
  then have "rev (dropWhile is_space (rev (dropWhile is_space (trim s)))) = trim s"
    by (simp only: trim_def)
  then have "length (dropWhile is_space (trim s)) \<ge> length (trim s)"
    by (metis length_dropWhile_le length_rev)
  then have "dropWhile is_space (trim s) = trim s"
    by (metis append_eq_conv_conj append_self_conv2 length_dropWhile_le le_antisym
        takeWhile_dropWhile_id length_0_conv add_diff_cancel_right' length_append length_drop)
  then show ?thesis
    using ne by (metis hd_dropWhile)
qed

text \<open>
  The test of line 1035 is made on the trimmed next line (line 1021), which never starts
  with a space: the branch of lines 1036 to 1044 is not taken on any input, and an
  indented block is read as plain lines.
\<close>

lemma indented_block_never_entered: "\<not> startsWith ''  '' (trim s)"
proof
  assume a: "startsWith ''  '' (trim s)"
  then have t: "take (Suc (Suc 0)) (trim s) = ''  ''"
    by (simp add: startsWith_def)
  then have ne: "trim s \<noteq> []"
    by auto
  from t have "hd (trim s) = CHR '' ''"
    by (cases "trim s") auto
  with hd_trim_not_space [OF ne] show False
    by (simp add: is_space_def)
qed

lemma indented_block_example:
  "toonToJson (''addr:'' @ [CHR 0x0A] @ ''  city: x'' @ [CHR 0x0A] @ ''  zip: y'') =
     Inr (Object [(''addr'', String ''city: x''), (''zip'', String ''y'')])"
  by code_simp

section \<open>Lines that the object loop skips\<close>

lemma loop_at_less: "loop_at ls i \<Longrightarrow> i < length ls"
proof (induction ls arbitrary: i rule: length_induct)
  case (1 ls)
  show ?case
  proof (cases ls)
    case Nil
    with "1.prems" show ?thesis
      by (simp add: loop_at.simps)
  next
    case (Cons l rest)
    note ls = Cons
    show ?thesis
    proof (cases i)
      case 0
      with ls show ?thesis
        by simp
    next
      case (Suc j)
      have step: "loop_at xs k \<Longrightarrow> length xs < length ls \<Longrightarrow> k < length xs" for xs k
        using "1.IH" by blast
      show ?thesis
      proof (cases "trim l = [] \<or> \<not> endsWith_colon (trim l)")
        case True
        with "1.prems" ls Suc have "loop_at rest j"
          by (auto simp: loop_at.simps Let_def split: if_splits)
        from step [OF this] ls Suc show ?thesis
          by simp
      next
        case False
        then have k: "trim l \<noteq> []" "endsWith_colon (trim l)"
          by simp_all
        show ?thesis
        proof (cases rest)
          case Nil
          with "1.prems" ls Suc k show ?thesis
            by (simp add: loop_at.simps Let_def)
        next
          case (Cons nl rest')
          note rest = Cons
          have nb: "\<not> startsWith ''  '' (trim nl)"
            by (rule indented_block_never_entered)
          show ?thesis
          proof (cases "header_dispatch (trim nl)")
            case True
            let ?n = "length (takeWhile is_row_line rest')"
            let ?D = "dropWhile is_row_line rest'"
            from "1.prems" ls Suc k rest True
            have a: "?n + 2 \<le> i" and b: "loop_at ?D (i - (?n + 2))"
              by (simp_all add: loop_at.simps Let_def)
            have "length ?D < length ls"
              using ls rest by (simp add: less_Suc_eq_le length_dropWhile_le le_SucI)
            from step [OF b this] have "i - (?n + 2) < length ?D" .
            moreover have "length rest' = ?n + length ?D"
              by (metis length_append takeWhile_dropWhile_id)
            ultimately show ?thesis
              using a ls rest by simp
          next
            case False
            from "1.prems" ls Suc k rest False nb
            have a: "2 \<le> i" and b: "loop_at rest' (i - 2)"
              by (simp_all add: loop_at.simps Let_def)
            have "length rest' < length ls"
              using ls rest by simp
            from step [OF b this] a ls rest show ?thesis
              by simp
          qed
        qed
      qed
    qed
  qed
qed

lemma skipped_is_row_line:
  assumes "\<not> endsWith_colon (trim l)" and "indexOf (CHR '':'') (trim l) \<le> 0"
  shows "is_row_line l"
  using assms by (simp add: is_row_line_def looks_like_key_line_def Let_def)

lemma takeWhile_append_head:
  assumes "xs \<noteq> []" and "\<not> P (hd xs)" and "\<forall>x\<in>set ts. P x"
  shows "takeWhile P (ts @ xs) = ts" and "dropWhile P (ts @ xs) = xs"
  using assms by (cases xs; simp add: takeWhile_append2 dropWhile_append2)+

lemma remove_append_right:
  "length t \<le> m \<Longrightarrow>
   take m (t @ d) @ drop (Suc m) (t @ d) =
     t @ (take (m - length t) d @ drop (Suc (m - length t)) d)"
  by (simp add: Suc_diff_le)

lemma nth_append_right: "length t \<le> m \<Longrightarrow> (t @ d) ! m = d ! (m - length t)"
  by (simp add: nth_append)

lemma loop_table_step:
  assumes "trim l \<noteq> []" and "endsWith_colon (trim l)" and "header_dispatch (trim nl)"
    and "T = takeWhile is_row_line xs" and "D = dropWhile is_row_line xs"
  shows "parseToonObject_loop result (l # nl # xs) =
     (case parseToonArray (trim nl # T) of
        Inl e \<Rightarrow> Inl e
      | Inr arr \<Rightarrow>
          parseToonObject_loop (js_set result (trim (butlast (trim l))) (Array arr)) D)"
  unfolding assms(4,5) using assms(1-3)
  by (simp add: parseToonObject_loop.simps(2) [of result l] Let_def)

lemma loop_at_skip:
  assumes "loop_at ls i"
    and "\<not> endsWith_colon (trim (ls ! i))"
    and "indexOf (CHR '':'') (trim (ls ! i)) \<le> 0"
  shows "parseToonObject_loop result (take i ls @ drop (Suc i) ls) =
         parseToonObject_loop result ls"
  using assms
proof (induction ls arbitrary: i result rule: length_induct)
  case (1 ls)
  have step: "parseToonObject_loop r (take k xs @ drop (Suc k) xs) = parseToonObject_loop r xs"
    if "length xs < length ls" "loop_at xs k" "\<not> endsWith_colon (trim (xs ! k))"
      "indexOf (CHR '':'') (trim (xs ! k)) \<le> 0" for xs k r
    using "1.IH" that by blast
  show ?case
  proof (cases ls)
    case Nil
    with "1.prems" show ?thesis
      by (simp add: loop_at.simps)
  next
    case (Cons l rest)
    note ls = Cons
    show ?thesis
    proof (cases i)
      case 0
      with "1.prems" ls show ?thesis
        by (simp add: loop_skip)
    next
      case (Suc j)
      show ?thesis
      proof (cases "trim l = [] \<or> \<not> endsWith_colon (trim l)")
        case True
        with "1.prems" ls Suc have at: "loop_at rest j"
          by (auto simp: loop_at.simps Let_def split: if_splits)
        from "1.prems" ls Suc have s: "\<not> endsWith_colon (trim (rest ! j))"
          "indexOf (CHR '':'') (trim (rest ! j)) \<le> 0"
          by simp_all
        have eq: "parseToonObject_loop r (take j rest @ drop (Suc j) rest) =
            parseToonObject_loop r rest" for r
          using step [of rest j r] at s ls by simp
        from True show ?thesis
        proof
          assume "trim l = []"
          then show ?thesis
            unfolding ls Suc
            by (simp add: parseToonObject_loop.simps(2) [of result l] Let_def eq)
        next
          assume "\<not> endsWith_colon (trim l)"
          then show ?thesis
            unfolding ls Suc
            by (simp add: parseToonObject_loop.simps(2) [of result l] Let_def eq)
        qed
      next
        case False
        then have k: "trim l \<noteq> []" "endsWith_colon (trim l)"
          by simp_all
        show ?thesis
        proof (cases rest)
          case Nil
          with "1.prems" ls Suc k show ?thesis
            by (simp add: loop_at.simps Let_def)
        next
          case (Cons nl rest')
          note rest = Cons
          have nb: "\<not> startsWith ''  '' (trim nl)"
            by (rule indented_block_never_entered)
          show ?thesis
          proof (cases "header_dispatch (trim nl)")
            case True
            let ?T = "takeWhile is_row_line rest'"
            let ?D = "dropWhile is_row_line rest'"
            let ?n = "length ?T"
            let ?k = "i - (?n + 2)"
            from "1.prems" ls Suc k rest True
            have a: "?n + 2 \<le> i" and b: "loop_at ?D ?k"
              by (simp_all add: loop_at.simps Let_def)
            have split: "rest' = ?T @ ?D"
              by simp
            have kl: "?k < length ?D"
              by (rule loop_at_less [OF b])
            have nth: "ls ! i = ?D ! ?k"
            proof -
              have "ls ! i = rest' ! (i - 2)"
                using a ls rest by (simp add: nth_Cons' numeral_2_eq_2)
              also have "\<dots> = ?D ! ?k"
                using a nth_append_right [of ?T "i - 2" ?D] by simp
              finally show ?thesis .
            qed
            with "1.prems" have s: "\<not> endsWith_colon (trim (?D ! ?k))"
              "indexOf (CHR '':'') (trim (?D ! ?k)) \<le> 0"
              by simp_all
            have ne: "?D \<noteq> []"
            proof
              assume "?D = []"
              then have "length ?D = 0"
                by (simp only: list.size(3))
              with kl show False
                by arith
            qed
            have hd: "\<not> is_row_line (hd ?D)"
              using ne by (rule hd_dropWhile)
            have k0: "?k \<noteq> 0"
            proof
              assume "?k = 0"
              with s ne have "is_row_line (hd ?D)"
                by (simp add: skipped_is_row_line hd_conv_nth)
              with hd show False ..
            qed
            let ?D' = "take ?k ?D @ drop (Suc ?k) ?D"
            have ne': "?D' \<noteq> []" and hd': "hd ?D' = hd ?D"
              using k0 ne by (cases ?D; cases ?k; simp)+
            have rem: "take i ls @ drop (Suc i) ls = l # nl # ?T @ ?D'"
            proof -
              have "take i ls @ drop (Suc i) ls =
                  l # nl # (take (i - 2) rest' @ drop (Suc (i - 2)) rest')"
                using a ls rest by (cases i; cases "i - 1"; simp)
              also have "take (i - 2) rest' @ drop (Suc (i - 2)) rest' = ?T @ ?D'"
                using a remove_append_right [of ?T "i - 2" ?D] by simp
              finally show ?thesis .
            qed
            have all: "\<forall>x\<in>set ?T. is_row_line x"
              by (auto dest: set_takeWhileD)
            from hd hd' have hdn: "\<not> is_row_line (hd ?D')"
              by simp
            have tw: "takeWhile is_row_line (?T @ ?D') = ?T"
              and dw: "dropWhile is_row_line (?T @ ?D') = ?D'"
              using takeWhile_append_head [OF ne' hdn all] by simp_all
            have dl: "length ?D < length ls"
              using ls rest by (simp add: less_Suc_eq_le length_dropWhile_le le_SucI)
            have eq: "parseToonObject_loop r ?D' = parseToonObject_loop r ?D" for r
              using step [OF dl b s] .
            have L: "parseToonObject_loop result (l # nl # rest') =
                (case parseToonArray (trim nl # ?T) of
                   Inl e \<Rightarrow> Inl e
                 | Inr arr \<Rightarrow>
                     parseToonObject_loop (js_set result (trim (butlast (trim l))) (Array arr)) ?D)"
              by (rule loop_table_step [OF k True refl refl])
            have R: "parseToonObject_loop result (l # nl # ?T @ ?D') =
                (case parseToonArray (trim nl # ?T) of
                   Inl e \<Rightarrow> Inl e
                 | Inr arr \<Rightarrow>
                     parseToonObject_loop (js_set result (trim (butlast (trim l))) (Array arr)) ?D')"
              by (rule loop_table_step [OF k True tw [symmetric] dw [symmetric]])
            show ?thesis
              unfolding rem R unfolding ls rest L by (simp only: eq)
          next
            case False
            from "1.prems" ls Suc k rest False nb
            have a: "2 \<le> i" and b: "loop_at rest' (i - 2)"
              by (simp_all add: loop_at.simps Let_def)
            have nth: "ls ! i = rest' ! (i - 2)"
              using a ls rest by (simp add: nth_Cons' numeral_2_eq_2)
            with "1.prems" have s: "\<not> endsWith_colon (trim (rest' ! (i - 2)))"
              "indexOf (CHR '':'') (trim (rest' ! (i - 2))) \<le> 0"
              by simp_all
            have dl: "length rest' < length ls"
              using ls rest by simp
            have eq: "parseToonObject_loop r (take (i - 2) rest' @ drop (Suc (i - 2)) rest') =
                parseToonObject_loop r rest'" for r
              using step [OF dl b s] .
            have rem: "take i ls @ drop (Suc i) ls =
                l # nl # (take (i - 2) rest' @ drop (Suc (i - 2)) rest')"
              using a ls rest by (cases i; cases "i - 1"; simp)
            show ?thesis
              unfolding rem unfolding ls rest using k False nb
              by (simp add: parseToonObject_loop.simps(2) [of result l] Let_def eq)
          qed
        qed
      qed
    qed
  qed
qed

text \<open>
  C10, as the claim states it, fails: a line without a colon is not always skipped. After
  the line \<^verbatim>\<open>k:\<close>, at which the loop stands, the line \<^verbatim>\<open>hello\<close> is read as the value of
  \<^verbatim>\<open>k\<close> (line 1050); with the line removed, \<^verbatim>\<open>k\<close> is \<^verbatim>\<open>null\<close>.
\<close>

theorem parseToonObject_skip_counterexample:
  "parseToonObject [''k:'', ''hello''] \<noteq> parseToonObject [''k:'']"
  by code_simp

text \<open>
  C10, amended. A line which, trimmed, does not end with a colon and has its first colon
  absent or at position 0 is skipped when the loop of \<^verbatim>\<open>parseToonObject\<close> stands at it, that
  is, when it is not read ahead as the value of a line that ends with a colon or as the
  header or a row of a table: the outcome of \<^verbatim>\<open>parseToonObject\<close>, an object or the error
  of a table header among the other lines, is the outcome for the same lines with that
  line removed.
\<close>

theorem parseToonObject_skip:
  assumes "loop_at lines i"
    and "\<not> endsWith_colon (trim (lines ! i))"
    and "indexOf (CHR '':'') (trim (lines ! i)) \<le> 0"
  shows "parseToonObject (take i lines @ drop (Suc i) lines) = parseToonObject lines"
  unfolding parseToonObject_def using assms by (rule loop_at_skip)

theorem parseToonObject_skip_witness:
  "loop_at [''a: 1'', ''k:'', ''v'', '': x'', ''b: 2''] 3 \<and>
   \<not> endsWith_colon (trim ([''a: 1'', ''k:'', ''v'', '': x'', ''b: 2''] ! 3)) \<and>
   indexOf (CHR '':'') (trim ([''a: 1'', ''k:'', ''v'', '': x'', ''b: 2''] ! 3)) \<le> 0 \<and>
   parseToonObject [''a: 1'', ''k:'', ''v'', ''b: 2''] =
     parseToonObject [''a: 1'', ''k:'', ''v'', '': x'', ''b: 2''] \<and>
   parseToonObject [''a: 1'', ''k:'', ''v'', '': x'', ''b: 2''] =
     Inr [(''a'', Number (Dec 1 0)), (''k'', String ''v''), (''b'', Number (Dec 2 0))]"
proof -
  let ?ls = "[''a: 1'', ''k:'', ''v'', '': x'', ''b: 2'']"
  have at: "loop_at ?ls 3"
    by code_simp
  have e: "\<not> endsWith_colon (trim (?ls ! 3))"
    by code_simp
  have i: "indexOf (CHR '':'') (trim (?ls ! 3)) \<le> 0"
    by code_simp
  have r: "parseToonObject ?ls =
      Inr [(''a'', Number (Dec 1 0)), (''k'', String ''v''), (''b'', Number (Dec 2 0))]"
    by code_simp
  have t: "take 3 ?ls @ drop (Suc 3) ?ls = [''a: 1'', ''k:'', ''v'', ''b: 2'']"
    by code_simp
  from parseToonObject_skip [OF at e i] at e i r show ?thesis
    unfolding t by simp
qed

end
